theory Spec2Isabelle
  imports Complex_Main "HOL-Library.AList"
begin

section \<open>Python dictionaries\<close>

text \<open>
  The server keeps its state in module-level Python dictionaries. A Python \<open>dict\<close>
  remembers insertion order, and two of the functions below depend on that order
  (\<open>sorted\<close> over \<open>items()\<close> is stable, \<open>len\<close> counts entries), so a
  dictionary is an association list: \<open>map_of d k\<close> is \<open>d.get(k)\<close>,
  \<open>AList.update k v d\<close> is \<open>d[k] = v\<close> (in place for a key that is present,
  appended otherwise) and \<open>AList.delete k d\<close> is \<open>del d[k]\<close>.
  Timestamps are the values of \<open>time.time()\<close>; they are modelled as exact reals,
  and every call of \<open>time.time()\<close> in the source is one argument of the model.
\<close>

type_synonym ('k, 'v) dict = "('k \<times> 'v) list"

definition dict_in :: "'k \<Rightarrow> ('k, 'v) dict \<Rightarrow> bool" where
  "dict_in k d = (map_of d k \<noteq> None)"

section \<open>Token store\<close>

text \<open>
  \<^verbatim>\<open>valid_tokens = {}\<close> maps a token string to either a bare number (the older
  encoding: an expiry timestamp, or \<open>-1\<close> once used) or a dictionary with the keys
  \<open>expire_time\<close> and \<open>used_time\<close>. Both keys are only ever read with
  \<open>.get('expire_time', 0)\<close> and \<open>.get('used_time')\<close>, so an absent key is
  represented by its default (\<open>0\<close>, \<open>None\<close>). \<open>TOther\<close> stands for a value
  that is neither a number nor a dictionary.
\<close>

record token_dict =
  expire_time :: real
  used_time :: "real option"

datatype token_info = TNum real | TDict token_dict | TOther

type_synonym tokens = "(string, token_info) dict"

definition TOKEN_USED_CLEANUP_TIME :: real where
  "TOKEN_USED_CLEANUP_TIME = 3600"

text \<open>The condition under which \<open>clean_expired_tokens\<close> appends a token to \<open>expired\<close>.\<close>

fun token_expired :: "real \<Rightarrow> token_info \<Rightarrow> bool" where
  "token_expired current_time (TNum n) = (n > 0 \<and> current_time > n)"
| "token_expired current_time (TDict d) =
     (case used_time d of
        None \<Rightarrow> expire_time d > 0 \<and> current_time > expire_time d
      | Some u \<Rightarrow> current_time > u + TOKEN_USED_CLEANUP_TIME)"
| "token_expired current_time TOther = False"

definition clean_expired_tokens :: "tokens \<Rightarrow> real \<Rightarrow> tokens \<times> nat" where
  "clean_expired_tokens valid_tokens current_time =
     (let expired = map fst (filter (\<lambda>(token, token_info). token_expired current_time token_info)
                                    valid_tokens)
      in (fold AList.delete expired valid_tokens, length expired))"

definition is_token_valid :: "tokens \<Rightarrow> string \<Rightarrow> real \<Rightarrow> bool" where
  "is_token_valid valid_tokens token current_time =
     (if token = [] \<or> \<not> dict_in token valid_tokens then False
      else case map_of valid_tokens token of
             Some (TNum n) \<Rightarrow> if n = - 1 then True else n > current_time
           | Some (TDict d) \<Rightarrow>
               (case used_time d of
                  None \<Rightarrow> expire_time d > current_time
                | Some u \<Rightarrow> current_time \<le> u + TOKEN_USED_CLEANUP_TIME)
           | _ \<Rightarrow> False)"

text \<open>
  \<open>verify_secret\<close>: the posted password is compared with the configured one; the token
  drawn by \<open>secrets.token_urlsafe(32)\<close> is the argument \<open>token\<close>.
\<close>

datatype verify_response = VSuccess string | VFailure

definition verify_secret ::
  "string \<Rightarrow> tokens \<Rightarrow> string \<Rightarrow> string \<Rightarrow> real \<Rightarrow> tokens \<times> verify_response" where
  "verify_secret SECRET_PASSWORD valid_tokens password token now =
     (if password = SECRET_PASSWORD
      then (AList.update token (TDict \<lparr>expire_time = now + 300, used_time = None\<rparr>) valid_tokens,
            VSuccess token)
      else (valid_tokens, VFailure))"

definition invalidate_token :: "tokens \<Rightarrow> string \<Rightarrow> tokens" where
  "invalidate_token valid_tokens secret_token =
     (if secret_token \<noteq> [] \<and> dict_in secret_token valid_tokens
      then AList.delete secret_token valid_tokens else valid_tokens)"

text \<open>
  The token part of \<open>index\<close> (the handler of \<open>GET /\<close>). The three outcomes are the
  rendered page with its \<open>is_secret_mode\<close> flag, the alert that the link cannot be
  used again, and the alert that the link is invalid. \<open>t_clean\<close> is the clock read by
  \<open>clean_expired_tokens\<close>, \<open>t_use\<close> the one stored as \<open>used_time\<close>.
\<close>

datatype index_response = Page bool | AlertReused | AlertInvalid

definition index :: "tokens \<Rightarrow> string \<Rightarrow> real \<Rightarrow> real \<Rightarrow> tokens \<times> index_response" where
  "index valid_tokens secret_token t_clean t_use =
     (if secret_token \<noteq> [] then
        (let vt = fst (clean_expired_tokens valid_tokens t_clean) in
         case map_of vt secret_token of
           Some (TNum n) \<Rightarrow>
             if n > 0 then (AList.update secret_token (TNum (- 1)) vt, Page True)
             else (vt, AlertReused)
         | Some (TDict d) \<Rightarrow>
             (case used_time d of
                None \<Rightarrow> (AList.update secret_token (TDict (d\<lparr>used_time := Some t_use\<rparr>)) vt,
                          Page True)
              | Some u \<Rightarrow> (vt, AlertReused))
         | Some TOther \<Rightarrow> (vt, Page False)
         | None \<Rightarrow> (vt, AlertInvalid))
      else (valid_tokens, Page False))"

subsection \<open>Well-formed stores and repeated sweeps\<close>

text \<open>
  An association list is a dictionary when its keys are distinct; the token store also
  never holds the empty string as a key (a token is the non-empty string drawn by
  \<open>secrets.token_urlsafe\<close>, and the handlers read an empty \<open>secretnumber\<close> as
  no token at all).
\<close>

definition tokens_wf :: "tokens \<Rightarrow> bool" where
  "tokens_wf vt = (distinct (map fst vt) \<and> [] \<notin> fst ` set vt)"

text \<open>A run of the maintenance sweep at each of the given clock readings, in order.\<close>

definition sweeps :: "tokens \<Rightarrow> real list \<Rightarrow> tokens" where
  "sweeps vt ts = fold (\<lambda>t v. fst (clean_expired_tokens v t)) ts vt"

text \<open>
  The stores the program can reach. \<open>valid_tokens\<close> starts empty and is written by
  four functions only: \<open>verify_secret\<close>, \<open>index\<close>, \<open>clean_expired_tokens\<close> and
  \<open>invalidate_token\<close>. \<open>time.time()\<close> counts the seconds since 1970, so the expiry
  \<open>time.time() + 300\<close> that \<open>verify_secret\<close> stores is positive, and the token it
  draws is not the empty string.
\<close>

inductive reachable :: "string \<Rightarrow> tokens \<Rightarrow> bool" for SECRET_PASSWORD :: string where
  start: "reachable SECRET_PASSWORD []"
| issue: "reachable SECRET_PASSWORD vt \<Longrightarrow> token \<noteq> [] \<Longrightarrow> 0 < now + 300
          \<Longrightarrow> reachable SECRET_PASSWORD (fst (verify_secret SECRET_PASSWORD vt password token now))"
| request: "reachable SECRET_PASSWORD vt
          \<Longrightarrow> reachable SECRET_PASSWORD (fst (index vt secret_token t_clean t_use))"
| sweep: "reachable SECRET_PASSWORD vt
          \<Longrightarrow> reachable SECRET_PASSWORD (fst (clean_expired_tokens vt now))"
| invalidate: "reachable SECRET_PASSWORD vt
          \<Longrightarrow> reachable SECRET_PASSWORD (invalidate_token vt secret_token)"

section \<open>Request threads on the token store\<close>

text \<open>
  The server runs its handlers on a pool of threads (\<open>serve(app, threads=...)\<close>), and
  no lock guards \<open>valid_tokens\<close>: \<open>index\<close> reads \<open>used_time\<close> and only afterwards
  stores the new value. The handler is therefore two atomic steps. \<open>index_check\<close> is
  everything up to the test of the token (the sweep, the lookup and the branch); it answers
  at once, or leaves the store still to be done. \<open>index_store\<close> is that store, on the
  dictionary as it is by then: \<open>valid_tokens[secret_token] = -1\<close> for the numeric
  encoding, \<open>valid_tokens[secret_token]['used_time'] = time.time()\<close> for the structured
  one, which raises when the key has gone or its value takes no item assignment.
\<close>

datatype pending = StoreSentinel | StoreUsedTime

datatype outcome = Responded index_response | Raised

definition index_check :: "tokens \<Rightarrow> string \<Rightarrow> real \<Rightarrow> tokens \<times> (index_response + pending)" where
  "index_check valid_tokens secret_token t_clean =
     (if secret_token \<noteq> [] then
        (let vt = fst (clean_expired_tokens valid_tokens t_clean) in
         case map_of vt secret_token of
           Some (TNum n) \<Rightarrow> if n > 0 then (vt, Inr StoreSentinel) else (vt, Inl AlertReused)
         | Some (TDict d) \<Rightarrow>
             (case used_time d of
                None \<Rightarrow> (vt, Inr StoreUsedTime)
              | Some u \<Rightarrow> (vt, Inl AlertReused))
         | Some TOther \<Rightarrow> (vt, Inl (Page False))
         | None \<Rightarrow> (vt, Inl AlertInvalid))
      else (valid_tokens, Inl (Page False)))"

fun index_store :: "tokens \<Rightarrow> string \<Rightarrow> pending \<Rightarrow> real \<Rightarrow> tokens \<times> outcome" where
  "index_store vt secret_token StoreSentinel t_use =
     (AList.update secret_token (TNum (- 1)) vt, Responded (Page True))"
| "index_store vt secret_token StoreUsedTime t_use =
     (case map_of vt secret_token of
        Some (TDict d) \<Rightarrow>
          (AList.update secret_token (TDict (d\<lparr>used_time := Some t_use\<rparr>)) vt,
           Responded (Page True))
      | _ \<Rightarrow> (vt, Raised))"

text \<open>
  A request thread carries the two clock readings it will make and its progress. A
  schedule is the list of thread numbers in the order in which they take their next step.
\<close>

datatype progress = Start | Pending pending | Done outcome

record thread =
  clock_clean :: real
  clock_use :: real
  progress :: progress

definition step :: "string \<Rightarrow> nat \<Rightarrow> tokens \<times> thread list \<Rightarrow> tokens \<times> thread list" where
  "step secret_token i st =
     (let vt = fst st; ths = snd st in
      if i < length ths then
        (let th = ths ! i in
         case progress th of
           Start \<Rightarrow>
             (case index_check vt secret_token (clock_clean th) of
                (vt', Inl r) \<Rightarrow> (vt', ths[i := th\<lparr>progress := Done (Responded r)\<rparr>])
              | (vt', Inr p) \<Rightarrow> (vt', ths[i := th\<lparr>progress := Pending p\<rparr>]))
         | Pending p \<Rightarrow>
             (case index_store vt secret_token p (clock_use th) of
                (vt', r) \<Rightarrow> (vt', ths[i := th\<lparr>progress := Done r\<rparr>]))
         | Done r \<Rightarrow> (vt, ths))
      else (vt, ths))"

definition run :: "string \<Rightarrow> nat list \<Rightarrow> tokens \<times> thread list \<Rightarrow> tokens \<times> thread list" where
  "run secret_token schedule st = fold (step secret_token) schedule st"

text \<open>
  Requests handled one after the other: each \<open>index\<close> call runs to its end before the
  next begins. The result is the final store and the responses in order.
\<close>

fun index_seq :: "tokens \<Rightarrow> string \<Rightarrow> (real \<times> real) list \<Rightarrow> tokens \<times> index_response list" where
  "index_seq vt secret_token [] = (vt, [])"
| "index_seq vt secret_token ((tc, tu) # calls) =
     (case index vt secret_token tc tu of
        (vt', r) \<Rightarrow> (case index_seq vt' secret_token calls of (vt'', rs) \<Rightarrow> (vt'', r # rs)))"

section \<open>Paths and file names\<close>

text \<open>
  Strings are byte strings; \<open>lower\<close> is \<open>str.lower\<close> on ASCII letters. \<open>os_path_join\<close>
  is \<open>os.path.join\<close> for two arguments with \<open>/\<close> as separator (\<open>posixpath.join\<close>):
  an absolute second argument replaces the first.
\<close>

definition lower_char :: "char \<Rightarrow> char" where
  "lower_char c = (let n = (of_char c :: nat) in if 65 \<le> n \<and> n \<le> 90 then char_of (n + 32) else c)"

definition lower :: "string \<Rightarrow> string" where
  "lower s = map lower_char s"

definition endswith :: "string \<Rightarrow> string \<Rightarrow> bool" where
  "endswith s e = (length e \<le> length s \<and> drop (length s - length e) s = e)"

definition startswith :: "string \<Rightarrow> string \<Rightarrow> bool" where
  "startswith s e = (take (length e) s = e)"

definition os_path_join :: "string \<Rightarrow> string \<Rightarrow> string" where
  "os_path_join a b =
     (if startswith b ''/'' then b
      else if a = [] \<or> endswith a ''/'' then a @ b
      else a @ ''/'' @ b)"

section \<open>Listing cache\<close>

text \<open>
  \<open>video_list_cache\<close> has the two fixed keys \<open>'normal'\<close> and \<open>'secret'\<close>; it is a
  total function of the key. What \<open>get_video_list\<close> sees of the file system during one
  call is \<open>fs video_root\<close>: \<open>None\<close> when \<open>os.path.exists(video_root)\<close> is false,
  otherwise the directories \<open>os.walk\<close> visits, in its order, each as the pair of
  \<open>os.path.relpath(root, video_root)\<close> and its list \<open>files\<close>.
\<close>

record cache_entry =
  files :: "string list"
  last_update :: real

type_synonym video_list_cache = "string \<Rightarrow> cache_entry"

type_synonym walk = "(string \<times> string list) list"

definition VIDEO_CACHE_EXPIRE :: real where
  "VIDEO_CACHE_EXPIRE = 300"

definition video_list_cache_init :: video_list_cache where
  "video_list_cache_init = (\<lambda>k. \<lparr>files = [], last_update = 0\<rparr>)"

definition video_suffixes :: "string list" where
  "video_suffixes = [''.mp4'', ''.webm'', ''.ogg'', ''.mkv'', ''.rmvb'', ''.avi'', ''.flv'',
                     ''.mov'', ''.wmv'']"

definition scan_videos :: "walk \<Rightarrow> string list" where
  "scan_videos w =
     concat (map (\<lambda>(rel_dir, fs).
                    map (\<lambda>file.
                           map (\<lambda>c. if c = CHR 0x5C then CHR ''/'' else c)
                               (if rel_dir \<noteq> ''.'' then os_path_join rel_dir file else file))
                        (filter (\<lambda>file. list_ex (endswith (lower file)) video_suffixes) fs))
                 w)"

definition get_video_list ::
  "string \<Rightarrow> string \<Rightarrow> (string \<Rightarrow> walk option) \<Rightarrow> video_list_cache \<Rightarrow> bool \<Rightarrow> bool \<Rightarrow> real
   \<Rightarrow> video_list_cache \<times> string list" where
  "get_video_list VIDEO_ROOT SECRET_VIDEO_ROOT fs cache is_secret force_refresh current_time =
     (let cache_key = (if is_secret then ''secret'' else ''normal'');
          cache_data = cache cache_key
      in if \<not> force_refresh \<and> files cache_data \<noteq> []
            \<and> current_time - last_update cache_data < VIDEO_CACHE_EXPIRE
         then (cache, files cache_data)
         else
           (let video_root = (if is_secret then SECRET_VIDEO_ROOT else VIDEO_ROOT) in
            case fs video_root of
              None \<Rightarrow> (cache(cache_key := \<lparr>files = [], last_update = current_time\<rparr>), [])
            | Some w \<Rightarrow>
                (let video_files = scan_videos w in
                 (cache(cache_key := \<lparr>files = video_files, last_update = current_time\<rparr>),
                  video_files))))"

section \<open>Connection registry\<close>

text \<open>
  \<open>active_connections\<close> maps a client address to its session dictionary. The strings
  \<open>NOT_PLAYING\<close> and \<open>UNKNOWN_INTERFACE\<close> stand for the two non-ASCII literals of the
  source. \<open>psutil.net_if_addrs()\<close> is an argument: \<open>None\<close> when it raises, otherwise
  for each interface its addresses, each with the flag \<open>family == AF_INET\<close>.
\<close>

definition CONNECTION_TIMEOUT :: real where
  "CONNECTION_TIMEOUT = 30"

definition MAX_CONNECTIONS :: nat where
  "MAX_CONNECTIONS = 100"

definition INTERFACE_CACHE_EXPIRE :: real where
  "INTERFACE_CACHE_EXPIRE = 60"

definition NOT_PLAYING :: string where
  "NOT_PLAYING = ''not playing''"

definition UNKNOWN_INTERFACE :: string where
  "UNKNOWN_INTERFACE = ''unknown interface''"

record interface_cache =
  ip_to_interface_cache :: "(string, string) dict"
  interface_cache_last_update :: real

type_synonym net_if_addrs = "(string \<times> (bool \<times> string) list) list option"

definition get_interface_name ::
  "net_if_addrs \<Rightarrow> interface_cache \<Rightarrow> string \<Rightarrow> real \<Rightarrow> interface_cache \<times> string" where
  "get_interface_name psutil_net_if_addrs ic server_ip current_time =
     (let ic' =
        (if current_time - interface_cache_last_update ic > INTERFACE_CACHE_EXPIRE
         then \<lparr>ip_to_interface_cache =
                 (case psutil_net_if_addrs of
                    None \<Rightarrow> []
                  | Some ifs \<Rightarrow>
                      fold (\<lambda>(iface, addrs) c.
                              fold (\<lambda>(is_inet, address) c.
                                      if is_inet then AList.update address iface c else c)
                                   addrs c)
                           ifs []),
               interface_cache_last_update = current_time\<rparr>
         else ic)
      in (ic', case map_of (ip_to_interface_cache ic') server_ip of
                 None \<Rightarrow> UNKNOWN_INTERFACE
               | Some iface \<Rightarrow> iface))"

record conn_info =
  server_ip :: string
  client_port :: string
  interface :: string
  last_seen :: real
  video_title :: string
  position :: real
  duration :: real
  bandwidth_down :: int
  bandwidth_up :: int
  connected_at :: string

type_synonym connections = "(string, conn_info) dict"

text \<open>
  \<open>cleanup_oldest_connections\<close> takes \<open>connection_lock\<close>, a \<open>threading.Lock\<close>, which
  is not re-entrant: called by a thread that already holds the lock it never returns. The
  argument \<open>held\<close> says whether the caller holds the lock; \<open>None\<close> is the call that
  never returns. \<open>sorted\<close> is stable, as \<open>sort_key\<close> is.
\<close>

definition cleanup_oldest_connections :: "bool \<Rightarrow> nat \<Rightarrow> connections \<Rightarrow> connections option" where
  "cleanup_oldest_connections held count active_connections =
     (if held then None
      else if length active_connections \<ge> MAX_CONNECTIONS then
        (let sorted_connections = sort_key (\<lambda>x. last_seen (snd x)) active_connections
         in Some (fold AList.delete (map fst (take count sorted_connections)) active_connections))
      else Some active_connections)"

text \<open>
  A tracked request: the fields of \<open>request\<close> the hook reads, and what it reads from its
  environment (the interface table, the two clock readings, the formatted date).
\<close>

record track_request =
  path :: string
  remote_addr :: string
  remote_port :: string
  host :: string
  psutil_net_if_addrs :: net_if_addrs
  t_interface :: real
  t_seen :: real
  now_string :: string

definition track_connection ::
  "connections \<times> interface_cache \<Rightarrow> track_request \<Rightarrow> (connections \<times> interface_cache) option" where
  "track_connection st request =
     (let active_connections = fst st; ic = snd st in
      if path request \<in> set [''/monitor'', ''/monitor-data''] then Some st
      else
        (let client_ip = remote_addr request;
             client_port = remote_port request;
             server_ip = takeWhile (\<lambda>c. c \<noteq> CHR '':'') (host request)
         in case (if \<not> dict_in client_ip active_connections
                     \<and> length active_connections \<ge> MAX_CONNECTIONS
                  then cleanup_oldest_connections False 10 active_connections
                  else Some active_connections) of
              None \<Rightarrow> None
            | Some conns1 \<Rightarrow>
                if \<not> dict_in client_ip conns1 then
                  (case (if length conns1 \<ge> MAX_CONNECTIONS
                         then cleanup_oldest_connections True 10 conns1
                         else Some conns1) of
                     None \<Rightarrow> None
                   | Some conns2 \<Rightarrow>
                       (case get_interface_name (psutil_net_if_addrs request) ic server_ip
                               (t_interface request) of
                          (ic', interface_name) \<Rightarrow>
                            Some (AList.update client_ip
                                    \<lparr>server_ip = server_ip,
                                     client_port = client_port,
                                     interface = interface_name,
                                     last_seen = t_seen request,
                                     video_title = NOT_PLAYING,
                                     position = 0,
                                     duration = 0,
                                     bandwidth_down = 0,
                                     bandwidth_up = 0,
                                     connected_at = now_string request\<rparr> conns2, ic')))
                else
                  Some (AList.map_entry client_ip
                          (\<lambda>info. info\<lparr>last_seen := t_seen request, client_port := client_port\<rparr>)
                          conns1, ic)))"

text \<open>A sequence of tracked requests, one after the other; it stops where one never returns.\<close>

fun track_all ::
  "connections \<times> interface_cache \<Rightarrow> track_request list \<Rightarrow> (connections \<times> interface_cache) option" where
  "track_all st [] = Some st"
| "track_all st (request # requests) =
     (case track_connection st request of
        None \<Rightarrow> None
      | Some st' \<Rightarrow> track_all st' requests)"

section \<open>Streaming\<close>

subsection \<open>String operations of the range parser\<close>

text \<open>
  \<open>py_replace s old new\<close> is \<open>s.replace(old, new)\<close> for a non-empty \<open>old\<close>,
  \<open>py_split s sep\<close> is \<open>s.split(sep)\<close> for a separator of one character,
  \<open>py_int\<close> is \<open>int\<close> on a string (surrounding white space, an optional sign,
  decimal digits with single underscores between them; \<open>None\<close> is \<open>ValueError\<close>) and
  \<open>py_str\<close> is \<open>str\<close> on an integer. The cap that recent Python versions put
  on the number of digits in both conversions (4300 by default) lies far beyond the size of
  any file and is left out.
\<close>

fun py_replace :: "string \<Rightarrow> string \<Rightarrow> string \<Rightarrow> string" where
  "py_replace [] old new = []"
| "py_replace (c # cs) old new =
     (if old \<noteq> [] \<and> startswith (c # cs) old
      then new @ py_replace (drop (length old) (c # cs)) old new
      else c # py_replace cs old new)"

fun py_split :: "string \<Rightarrow> char \<Rightarrow> string list" where
  "py_split [] sep = [[]]"
| "py_split (c # cs) sep =
     (if c = sep then [] # py_split cs sep
      else (case py_split cs sep of
              x # xs \<Rightarrow> (c # x) # xs
            | [] \<Rightarrow> [[c]]))"

definition is_space :: "char \<Rightarrow> bool" where
  "is_space c = ((of_char c :: nat) \<in> set [9, 10, 11, 12, 13, 28, 29, 30, 31, 32])"

definition is_digit :: "char \<Rightarrow> bool" where
  "is_digit c = (48 \<le> (of_char c :: nat) \<and> (of_char c :: nat) \<le> 57)"

definition digit_val :: "char \<Rightarrow> nat" where
  "digit_val c = of_char c - 48"

definition digits_value :: "string \<Rightarrow> nat" where
  "digits_value ds = foldl (\<lambda>acc c. 10 * acc + digit_val c) 0 ds"

fun valid_literal :: "string \<Rightarrow> bool" where
  "valid_literal [] = False"
| "valid_literal [c] = is_digit c"
| "valid_literal (c # d # cs) =
     (is_digit c \<and> (if d = CHR ''_'' then valid_literal cs else valid_literal (d # cs)))"

definition strip :: "string \<Rightarrow> string" where
  "strip s = rev (dropWhile is_space (rev (dropWhile is_space s)))"

definition py_int :: "string \<Rightarrow> int option" where
  "py_int s =
     (case strip s of
        [] \<Rightarrow> None
      | c # cs \<Rightarrow>
          (let neg = (c = CHR ''-'');
               digits = (if c = CHR ''-'' \<or> c = CHR ''+'' then cs else c # cs)
           in if valid_literal digits
              then Some ((if neg then - 1 else 1)
                         * int (digits_value (filter (\<lambda>c. c \<noteq> CHR ''_'') digits)))
              else None))"

fun str_nat :: "nat \<Rightarrow> string" where
  "str_nat n = (if n < 10 then [char_of (48 + n)]
                else str_nat (n div 10) @ [char_of (48 + n mod 10)])"

declare str_nat.simps [simp del]

definition py_str :: "int \<Rightarrow> string" where
  "py_str i = (if i < 0 then CHR ''-'' # str_nat (nat (- i)) else str_nat (nat i))"

text \<open>A non-empty string of decimal digits, as \<open>str\<close> prints a natural number.\<close>

definition digit_string :: "string \<Rightarrow> bool" where
  "digit_string ds = (ds \<noteq> [] \<and> (\<forall>c\<in>set ds. is_digit c))"

subsection \<open>The handler\<close>

text \<open>
  The file system, as \<open>video\<close> sees it, is a function from a path to the bytes of the
  regular file there (\<open>None\<close> when \<open>os.path.isfile\<close> is false); reads succeed. A
  response is what \<open>app.response_class\<close> is given: the status, the MIME type, the
  headers and the body as the sequence of chunks the generator yields; a body of
  \<open>None\<close> is the empty sequence.

  \<open>generate_full\<close> reads \<open>CHUNK_SIZE\<close> bytes at a time up to the end of the file.
  \<open>generate_range\<close> is, in the source, a \<open>def\<close> whose body is its docstring alone:
  calling it returns \<open>None\<close>.
\<close>

type_synonym bytes = string

definition CHUNK_SIZE :: nat where
  "CHUNK_SIZE = 65536"

record response =
  status :: nat
  mimetype :: string
  headers :: "(string \<times> string) list"
  body :: "bytes list"

datatype py_error = IndexError | ValueError

definition response_class ::
  "bytes list option \<Rightarrow> nat \<Rightarrow> string \<Rightarrow> (string \<times> string) list \<Rightarrow> response" where
  "response_class resp st mt hs =
     \<lparr>status = st, mimetype = mt, headers = hs,
      body = (case resp of None \<Rightarrow> [] | Some chunks \<Rightarrow> chunks)\<rparr>"

fun read_chunks :: "nat \<Rightarrow> bytes \<Rightarrow> bytes list" where
  "read_chunks n data =
     (if n = 0 \<or> data = [] then [] else take n data # read_chunks n (drop n data))"

declare read_chunks.simps [simp del]

definition generate_full :: "bytes \<Rightarrow> bytes list option" where
  "generate_full data = Some (read_chunks CHUNK_SIZE data)"

definition generate_range :: "bytes list option" where
  "generate_range = None"

definition splitext_ext :: "string \<Rightarrow> string" where
  "splitext_ext p =
     (let base = rev (takeWhile (\<lambda>c. c \<noteq> CHR ''/'') (rev p));
          stem = dropWhile (\<lambda>c. c = CHR ''.'') base
      in if CHR ''.'' \<in> set stem
         then CHR ''.'' # rev (takeWhile (\<lambda>c. c \<noteq> CHR ''.'') (rev stem))
         else [])"

definition mime_types :: "(string \<times> string) list" where
  "mime_types =
     [(''.mp4'', ''video/mp4''), (''.webm'', ''video/webm''), (''.ogg'', ''video/ogg''),
      (''.mkv'', ''video/x-matroska''), (''.rmvb'', ''application/vnd.rn-realmedia-vbr''),
      (''.avi'', ''video/x-msvideo''), (''.flv'', ''video/x-flv''),
      (''.mov'', ''video/quicktime'')]"

record video_request =
  filename :: string
  secretnumber :: string
  range_header :: "string option"

definition video ::
  "string \<Rightarrow> string \<Rightarrow> (string \<Rightarrow> bytes option) \<Rightarrow> tokens \<Rightarrow> video_request \<Rightarrow> real
   \<Rightarrow> py_error + response" where
  "video VIDEO_ROOT SECRET_VIDEO_ROOT fs valid_tokens request current_time =
     (let secret_token = secretnumber request;
          is_secret = is_token_valid valid_tokens secret_token current_time;
          video_root = (if is_secret then SECRET_VIDEO_ROOT else VIDEO_ROOT);
          file_path = os_path_join video_root (filename request)
      in case fs file_path of
           None \<Rightarrow>
             Inr \<lparr>status = 404, mimetype = ''text/html'', headers = [],
                  body = [''File not found'']\<rparr>
         | Some data \<Rightarrow>
             (let ext = lower (splitext_ext (filename request));
                  mt = (case map_of mime_types ext of None \<Rightarrow> ''video/mp4'' | Some t \<Rightarrow> t);
                  size = int (length data)
              in case range_header request of
                   None \<Rightarrow>
                     Inr (response_class (generate_full data) 200 mt
                            [(''Content-Length'', py_str size), (''Accept-Ranges'', ''bytes'')])
                 | Some rh \<Rightarrow>
                     if rh = [] then
                       Inr (response_class (generate_full data) 200 mt
                              [(''Content-Length'', py_str size), (''Accept-Ranges'', ''bytes'')])
                     else
                       (case py_split (py_replace rh ''bytes='' []) (CHR ''-'') of
                          [] \<Rightarrow> Inl IndexError
                        | m0 # ms \<Rightarrow>
                            (case (if m0 \<noteq> [] then py_int m0 else Some 0) of
                               None \<Rightarrow> Inl ValueError
                             | Some b1 \<Rightarrow>
                                 (case ms of
                                    [] \<Rightarrow> Inl IndexError
                                  | m1 # _ \<Rightarrow>
                                      (case (if m1 \<noteq> [] then py_int m1 else Some (size - 1)) of
                                         None \<Rightarrow> Inl ValueError
                                       | Some b2 \<Rightarrow>
                                           (let byte1 = max 0 (min b1 (size - 1));
                                                byte2 = max byte1 (min b2 (size - 1));
                                                length = byte2 - byte1 + 1
                                            in Inr (response_class generate_range 206 mt
                                                 [(''Content-Range'',
                                                   ''bytes '' @ py_str byte1 @ ''-''
                                                     @ py_str byte2 @ ''/'' @ py_str size),
                                                  (''Accept-Ranges'', ''bytes''),
                                                  (''Content-Length'', py_str length)]))))))))"

subsection \<open>A file system of resolved paths\<close>

text \<open>
  How the operating system resolves a path is not in the source. For the claim about
  \<open>..\<close> segments it is the usual one: the path is cut at \<open>/\<close>, empty and \<open>.\<close>
  segments are dropped, and \<open>..\<close> drops the segment before it. \<open>files_fs\<close> is the file
  system that holds the given files, each under its resolved absolute path;
  \<open>inside dir p\<close> says that \<open>p\<close> resolves to a path below \<open>dir\<close>.
\<close>

definition path_segments :: "string \<Rightarrow> string list" where
  "path_segments p = py_split p (CHR ''/'')"

definition resolve :: "string \<Rightarrow> string list" where
  "resolve p =
     rev (fold (\<lambda>seg stack.
                  if seg = [] \<or> seg = ''.'' then stack
                  else if seg = ''..'' then tl stack
                  else seg # stack)
               (path_segments p) [])"

definition files_fs :: "(string list \<times> bytes) list \<Rightarrow> string \<Rightarrow> bytes option" where
  "files_fs fls p = map_of fls (resolve p)"

definition inside :: "string \<Rightarrow> string \<Rightarrow> bool" where
  "inside dir p = (take (length (resolve dir)) (resolve p) = resolve dir)"

section \<open>A registry at capacity\<close>

text \<open>
  One hundred sessions with the addresses \<open>10.0.0.0\<close> to \<open>10.0.0.99\<close>, the
  \<open>i\<close>-th last seen at clock reading \<open>i\<close>.
\<close>

definition full_registry :: connections where
  "full_registry =
     map (\<lambda>i. (''10.0.0.'' @ str_nat i,
               \<lparr>server_ip = ''10.0.0.254'', client_port = ''50000'', interface = ''eth0'',
                last_seen = real i, video_title = NOT_PLAYING, position = 0, duration = 0,
                bandwidth_down = 0, bandwidth_up = 0,
                connected_at = ''2024-01-01 00:00:00''\<rparr>))
         [0..<100]"

section \<open>Facts about dictionaries\<close>

lemma map_of_fold_delete:
  "map_of (fold AList.delete ks d) k = (if k \<in> set ks then None else map_of d k)"
  by (induction ks arbitrary: d) (auto simp: delete_conv')

lemma distinct_fold_delete:
  "distinct (map fst d) \<Longrightarrow> distinct (map fst (fold AList.delete ks d))"
  by (induction ks arbitrary: d) (auto simp: distinct_delete)

lemma set_fold_delete: "set (fold AList.delete ks d) \<subseteq> set d"
proof (induction ks arbitrary: d)
  case Nil
  show ?case by simp
next
  case (Cons k ks)
  have "set (fold AList.delete ks (AList.delete k d)) \<subseteq> set (AList.delete k d)"
    by (rule Cons.IH)
  also have "\<dots> \<subseteq> set d" by (auto simp: AList.delete_eq)
  finally show ?case by simp
qed

lemma expired_key_iff:
  assumes "distinct (map fst vt)"
  shows "tok \<in> set (map fst (filter (\<lambda>(token, token_info). token_expired now token_info) vt))
         \<longleftrightarrow> (\<exists>i. map_of vt tok = Some i \<and> token_expired now i)"
  using assms by (auto simp: image_iff)

lemma map_of_clean:
  assumes "distinct (map fst vt)"
  shows "map_of (fst (clean_expired_tokens vt now)) tok =
     (case map_of vt tok of
        None \<Rightarrow> None
      | Some i \<Rightarrow> if token_expired now i then None else Some i)"
proof -
  have "map_of (fst (clean_expired_tokens vt now)) tok =
        (if (\<exists>i. map_of vt tok = Some i \<and> token_expired now i) then None else map_of vt tok)"
    unfolding clean_expired_tokens_def Let_def fst_conv map_of_fold_delete
    using expired_key_iff [OF assms, of tok now] by simp
  then show ?thesis by (auto split: option.splits)
qed

lemma tokens_wf_clean:
  assumes "tokens_wf vt"
  shows "tokens_wf (fst (clean_expired_tokens vt now))"
proof -
  let ?ks = "map fst (filter (\<lambda>(token, token_info). token_expired now token_info) vt)"
  have "set (fold AList.delete ?ks vt) \<subseteq> set vt" by (rule set_fold_delete)
  then have "fst ` set (fold AList.delete ?ks vt) \<subseteq> fst ` set vt" by blast
  with assms show ?thesis
    by (auto simp: tokens_wf_def clean_expired_tokens_def Let_def distinct_fold_delete)
qed

lemma tokens_wf_update:
  assumes "tokens_wf vt" and "tok \<noteq> []"
  shows "tokens_wf (AList.update tok v vt)"
proof -
  have "set (map fst (AList.update tok v vt)) = insert tok (set (map fst vt))"
    by (auto simp: update_keys)
  then have "fst ` set (AList.update tok v vt) = insert tok (fst ` set vt)"
    by simp
  with assms show ?thesis by (simp add: tokens_wf_def distinct_update)
qed

lemma tokens_wf_sweeps: "tokens_wf vt \<Longrightarrow> tokens_wf (sweeps vt ts)"
  unfolding sweeps_def by (induction ts arbitrary: vt) (simp_all add: tokens_wf_clean)

lemma tokens_wf_verify_secret:
  "tokens_wf vt \<Longrightarrow> token \<noteq> [] \<Longrightarrow> tokens_wf (fst (verify_secret pw vt password token now))"
  by (simp add: verify_secret_def tokens_wf_update)

lemma tokens_wf_index: "tokens_wf vt \<Longrightarrow> tokens_wf (fst (index vt tok tc tu))"
  by (simp add: index_def Let_def tokens_wf_update tokens_wf_clean
           split: option.splits token_info.splits)

lemma tokens_wf_delete: "tokens_wf vt \<Longrightarrow> tokens_wf (AList.delete tok vt)"
proof -
  assume wf: "tokens_wf vt"
  have "set (AList.delete tok vt) \<subseteq> set vt" by (auto simp: AList.delete_eq)
  then have "fst ` set (AList.delete tok vt) \<subseteq> fst ` set vt" by blast
  moreover have "distinct (map fst (AList.delete tok vt))"
    using wf by (simp add: tokens_wf_def distinct_delete)
  ultimately show ?thesis using wf unfolding tokens_wf_def by blast
qed

lemma tokens_wf_invalidate_token: "tokens_wf vt \<Longrightarrow> tokens_wf (invalidate_token vt tok)"
  by (simp add: invalidate_token_def tokens_wf_delete)

lemma map_of_sweeps:
  "tokens_wf vt \<Longrightarrow> map_of (sweeps vt ts) tok =
     (case map_of vt tok of
        None \<Rightarrow> None
      | Some i \<Rightarrow> if \<exists>t\<in>set ts. token_expired t i then None else Some i)"
proof (induction ts arbitrary: vt)
  case Nil
  show ?case by (simp add: sweeps_def split: option.splits)
next
  case (Cons t ts)
  have wf': "tokens_wf (fst (clean_expired_tokens vt t))"
    using Cons.prems by (rule tokens_wf_clean)
  have d: "distinct (map fst vt)" using Cons.prems by (simp add: tokens_wf_def)
  have "sweeps vt (t # ts) = sweeps (fst (clean_expired_tokens vt t)) ts"
    by (simp add: sweeps_def)
  then show ?case
    using Cons.IH [OF wf'] map_of_clean [OF d, of t tok]
    by (auto split: option.splits)
qed

lemma wf_key_nonempty: "tokens_wf vt \<Longrightarrow> map_of vt tok = Some i \<Longrightarrow> tok \<noteq> []"
  by (auto simp: tokens_wf_def dest!: map_of_SomeD) (metis fst_conv image_eqI)

section \<open>The token lifecycle\<close>

text \<open>
  Claim C10. A token held in the older numeric encoding with the value \<open>-1\<close> stays valid
  for ever: \<open>is_token_valid\<close> answers \<open>True\<close> for it at every clock reading, and no
  run of \<open>clean_expired_tokens\<close>, at whatever clock readings, removes or changes it.
\<close>

theorem legacy_sentinel_permanent:
  assumes "tokens_wf vt" and "map_of vt tok = Some (TNum (- 1))"
  shows "is_token_valid (sweeps vt ts) tok now \<and> map_of (sweeps vt ts) tok = Some (TNum (- 1))"
proof -
  have m: "map_of (sweeps vt ts) tok = Some (TNum (- 1))"
    using assms by (simp add: map_of_sweeps)
  have "tok \<noteq> []" using assms by (rule wf_key_nonempty)
  with m show ?thesis by (simp add: is_token_valid_def dict_in_def)
qed

theorem legacy_sentinel_permanent_witness:
  "tokens_wf [(''t'', TNum (- 1))] \<and> map_of [(''t'', TNum (- 1))] ''t'' = Some (TNum (- 1))
   \<and> is_token_valid (sweeps [(''t'', TNum (- 1))] [10, 5000]) ''t'' 100000
   \<and> map_of (sweeps [(''t'', TNum (- 1))] [10, 5000]) ''t'' = Some (TNum (- 1))"
  using legacy_sentinel_permanent [of "[(''t'', TNum (- 1))]" "''t''" "[10, 5000]" 100000]
  by (simp add: tokens_wf_def)

text \<open>
  Claim C3. Sequentially: \<open>verify_secret\<close> with the configured password stores the token
  with \<open>expire_time = now + 300\<close> and \<open>used_time = None\<close>, and \<open>is_token_valid\<close>
  accepts it until then; the first \<open>index\<close> request carrying it (sweeping no later than
  \<open>expire_time\<close>) renders the secret page, and a second one (sweeping within the hour
  after the first use) gets the alert that the link cannot be used again.
\<close>

theorem issue_consume_twice:
  assumes wf: "tokens_wf vt" and ne: "token \<noteq> []"
    and issue: "verify_secret SECRET_PASSWORD vt SECRET_PASSWORD token now = (vt1, r1)"
    and first: "index vt1 token tc1 tu1 = (vt2, r2)" and w1: "tc1 \<le> now + 300"
    and second: "index vt2 token tc2 tu2 = (vt3, r3)" and w2: "tc2 \<le> tu1 + 3600"
  shows "r1 = VSuccess token
         \<and> map_of vt1 token = Some (TDict \<lparr>expire_time = now + 300, used_time = None\<rparr>)
         \<and> (\<forall>t<now + 300. is_token_valid vt1 token t)
         \<and> r2 = Page True \<and> r3 = AlertReused"
proof -
  let ?d = "\<lparr>expire_time = now + 300, used_time = None\<rparr>"
  have vt1: "vt1 = AList.update token (TDict ?d) vt" and r1: "r1 = VSuccess token"
    using issue by (simp_all add: verify_secret_def)
  have m1: "map_of vt1 token = Some (TDict ?d)" unfolding vt1 by (simp add: update_conv')
  have wf1: "tokens_wf vt1" unfolding vt1 using wf ne by (rule tokens_wf_update)
  have d1: "distinct (map fst vt1)" using wf1 by (simp add: tokens_wf_def)
  have valid: "\<forall>t<now + 300. is_token_valid vt1 token t"
    using m1 ne by (simp add: is_token_valid_def dict_in_def)
  let ?c1 = "fst (clean_expired_tokens vt1 tc1)"
  have mc1: "map_of ?c1 token = Some (TDict ?d)"
    using map_of_clean [OF d1, of tc1 token] m1 w1 by simp
  have vt2: "vt2 = AList.update token (TDict (?d\<lparr>used_time := Some tu1\<rparr>)) ?c1"
    and r2: "r2 = Page True"
    using first mc1 ne by (simp_all add: index_def Let_def)
  have wf2: "tokens_wf vt2"
    unfolding vt2 using wf1 ne by (simp add: tokens_wf_update tokens_wf_clean)
  have d2: "distinct (map fst vt2)" using wf2 by (simp add: tokens_wf_def)
  have m2: "map_of vt2 token = Some (TDict (?d\<lparr>used_time := Some tu1\<rparr>))"
    unfolding vt2 by (simp add: update_conv')
  have mc2: "map_of (fst (clean_expired_tokens vt2 tc2)) token
             = Some (TDict (?d\<lparr>used_time := Some tu1\<rparr>))"
    using map_of_clean [OF d2, of tc2 token] m2 w2 by (simp add: TOKEN_USED_CLEANUP_TIME_def)
  have r3: "r3 = AlertReused"
    using second mc2 ne by (simp add: index_def Let_def)
  from r1 m1 valid r2 r3 show ?thesis by blast
qed

theorem issue_consume_twice_witness:
  "tokens_wf [] \<and> ''tok'' \<noteq> []
   \<and> verify_secret ''secret'' [] ''secret'' ''tok'' 1000
       = ([(''tok'', TDict \<lparr>expire_time = 1300, used_time = None\<rparr>)], VSuccess ''tok'')
   \<and> index [(''tok'', TDict \<lparr>expire_time = 1300, used_time = None\<rparr>)] ''tok'' 1010 1011
       = ([(''tok'', TDict \<lparr>expire_time = 1300, used_time = Some 1011\<rparr>)], Page True)
   \<and> (1010::real) \<le> 1000 + 300
   \<and> index [(''tok'', TDict \<lparr>expire_time = 1300, used_time = Some 1011\<rparr>)] ''tok'' 1020 1021
       = ([(''tok'', TDict \<lparr>expire_time = 1300, used_time = Some 1011\<rparr>)], AlertReused)
   \<and> (1020::real) \<le> 1011 + 3600
   \<and> is_token_valid [(''tok'', TDict \<lparr>expire_time = 1300, used_time = None\<rparr>)] ''tok'' 1299"
  using issue_consume_twice [of "[]" "''tok''" "''secret''" 1000
      "[(''tok'', TDict \<lparr>expire_time = 1300, used_time = None\<rparr>)]" "VSuccess ''tok''"
      1010 1011 "[(''tok'', TDict \<lparr>expire_time = 1300, used_time = Some 1011\<rparr>)]" "Page True"
      1020 1021 "[(''tok'', TDict \<lparr>expire_time = 1300, used_time = Some 1011\<rparr>)]" AlertReused]
  by (simp add: tokens_wf_def index_def clean_expired_tokens_def Let_def verify_secret_def
                TOKEN_USED_CLEANUP_TIME_def)

lemma index_consumes:
  assumes wf: "tokens_wf vt" and tok: "map_of vt tok = Some (TDict d)"
    and ix: "index vt tok t_clean t = (vt', Page True)"
  shows "used_time d = None \<and> \<not> token_expired t_clean (TDict d) \<and>
         vt' = AList.update tok (TDict (d\<lparr>used_time := Some t\<rparr>))
                 (fst (clean_expired_tokens vt t_clean))"
proof -
  have ne: "tok \<noteq> []" using wf tok by (rule wf_key_nonempty)
  have d: "distinct (map fst vt)" using wf by (simp add: tokens_wf_def)
  have m: "map_of (fst (clean_expired_tokens vt t_clean)) tok =
           (if token_expired t_clean (TDict d) then None else Some (TDict d))"
    using map_of_clean [OF d, of t_clean tok] tok by simp
  show ?thesis
  proof (cases "token_expired t_clean (TDict d)")
    case True
    with m ix ne show ?thesis by (simp add: index_def Let_def)
  next
    case False
    with m ix ne show ?thesis
      by (cases "used_time d") (auto simp: index_def Let_def)
  qed
qed

text \<open>
  Claim C4. A structured token whose first use by \<open>index\<close> stored \<open>used_time = t\<close> is
  accepted by \<open>is_token_valid\<close> at every clock reading up to \<open>t + 3600\<close> and rejected at
  every later one, whatever sweeps ran before the check.
\<close>

theorem consumed_token_grace:
  assumes wf: "tokens_wf vt" and tok: "map_of vt tok = Some (TDict d)"
    and ix: "index vt tok t_clean t = (vt', Page True)"
    and ts: "\<forall>s\<in>set ts. s \<le> now"
  shows "is_token_valid (sweeps vt' ts) tok now \<longleftrightarrow> now \<le> t + 3600"
proof -
  have ne: "tok \<noteq> []" using wf tok by (rule wf_key_nonempty)
  let ?v1 = "fst (clean_expired_tokens vt t_clean)"
  let ?i = "TDict (d\<lparr>used_time := Some t\<rparr>)"
  have vt': "vt' = AList.update tok ?i ?v1"
    using index_consumes [OF wf tok ix] by simp
  have wf': "tokens_wf vt'"
    unfolding vt' using wf ne by (simp add: tokens_wf_update tokens_wf_clean)
  have m': "map_of vt' tok = Some ?i" unfolding vt' by (simp add: update_conv')
  have sw: "map_of (sweeps vt' ts) tok =
            (if \<exists>s\<in>set ts. s > t + 3600 then None else Some ?i)"
    using map_of_sweeps [OF wf', of ts tok] m' by (simp add: TOKEN_USED_CLEANUP_TIME_def)
  show ?thesis
  proof (cases "\<exists>s\<in>set ts. s > t + 3600")
    case True
    then obtain s where "s \<in> set ts" and "s > t + 3600" by blast
    with ts have "now > t + 3600" by fastforce
    moreover have "\<not> is_token_valid (sweeps vt' ts) tok now"
      using sw True by (simp add: is_token_valid_def dict_in_def)
    ultimately show ?thesis by simp
  next
    case False
    with sw ne show ?thesis
      by (simp add: is_token_valid_def dict_in_def TOKEN_USED_CLEANUP_TIME_def)
  qed
qed

theorem consumed_token_grace_witness:
  "tokens_wf [(''t'', TDict \<lparr>expire_time = 300, used_time = None\<rparr>)]
   \<and> index [(''t'', TDict \<lparr>expire_time = 300, used_time = None\<rparr>)] ''t'' 10 11
       = ([(''t'', TDict \<lparr>expire_time = 300, used_time = Some 11\<rparr>)], Page True)
   \<and> (20::real) \<le> 3611
   \<and> is_token_valid (sweeps [(''t'', TDict \<lparr>expire_time = 300, used_time = Some 11\<rparr>)] [20])
        ''t'' 3611"
  using consumed_token_grace [of "[(''t'', TDict \<lparr>expire_time = 300, used_time = None\<rparr>)]"
      "''t''" "\<lparr>expire_time = 300, used_time = None\<rparr>" 10 11
      "[(''t'', TDict \<lparr>expire_time = 300, used_time = Some 11\<rparr>)]" "[20]" 3611]
  by (simp add: tokens_wf_def index_def clean_expired_tokens_def Let_def)

lemma set_update_subset: "set (AList.update k v al) \<subseteq> insert (k, v) (set al)"
  by (induction al) auto

lemma set_clean_subset: "set (fst (clean_expired_tokens vt now)) \<subseteq> set vt"
  by (simp add: clean_expired_tokens_def Let_def set_fold_delete)

lemma set_delete_subset: "set (AList.delete k al) \<subseteq> set al"
  by (auto simp: AList.delete_eq)

lemma reachable_tokens_wf: "reachable pw vt \<Longrightarrow> tokens_wf vt"
proof (induction rule: reachable.induct)
  case start
  show ?case by (simp add: tokens_wf_def)
next
  case (issue vt token now password)
  then show ?case by (simp add: tokens_wf_verify_secret)
next
  case (request vt secret_token t_clean t_use)
  then show ?case by (simp add: tokens_wf_index)
next
  case (sweep vt now)
  then show ?case by (simp add: tokens_wf_clean)
next
  case (invalidate vt secret_token)
  then show ?case by (simp add: tokens_wf_invalidate_token)
qed

lemma reachable_structured:
  "reachable pw vt \<Longrightarrow> (k, i) \<in> set vt \<Longrightarrow> \<exists>d. i = TDict d \<and> 0 < expire_time d"
proof (induction arbitrary: k i rule: reachable.induct)
  case start
  then show ?case by simp
next
  case (issue vt token now password)
  show ?case
  proof (cases "password = pw")
    case True
    then have "(k, i) \<in> insert (token, TDict \<lparr>expire_time = now + 300, used_time = None\<rparr>) (set vt)"
      using issue.prems set_update_subset by (fastforce simp: verify_secret_def)
    then show ?thesis using issue.IH issue.hyps(3) by auto
  next
    case False
    then show ?thesis using issue.prems issue.IH by (simp add: verify_secret_def)
  qed
next
  case (request vt secret_token t_clean t_use)
  let ?c = "fst (clean_expired_tokens vt t_clean)"
  have sub: "set ?c \<subseteq> set vt" by (rule set_clean_subset)
  have old: "\<exists>d. j = TDict d \<and> 0 < expire_time d" if "(l, j) \<in> set ?c" for l j
    using that sub request.IH by blast
  show ?case
  proof (cases "secret_token = []")
    case True
    then show ?thesis using request.prems request.IH by (simp add: index_def)
  next
    case ne: False
    show ?thesis
    proof (cases "map_of ?c secret_token")
      case None
      then show ?thesis using request.prems ne old by (simp add: index_def Let_def)
    next
      case (Some j)
      then have "(secret_token, j) \<in> set ?c" by (rule map_of_SomeD)
      then obtain d where j: "j = TDict d" and pos: "0 < expire_time d" using old by blast
      show ?thesis
      proof (cases "used_time d")
        case None
        then have "(k, i) \<in> insert (secret_token, TDict (d\<lparr>used_time := Some t_use\<rparr>)) (set ?c)"
          using request.prems ne Some j set_update_subset
          by (fastforce simp: index_def Let_def)
        then show ?thesis using old pos by auto
      next
        case (Some u)
        then show ?thesis
          using request.prems ne \<open>map_of ?c secret_token = Some j\<close> j old
          by (simp add: index_def Let_def)
      qed
    qed
  qed
next
  case (sweep vt now)
  then show ?case using set_clean_subset by blast
next
  case (invalidate vt secret_token)
  then show ?case using set_delete_subset by (fastforce simp: invalidate_token_def split: if_splits)
qed

lemma sweep_expired_unused_positive:
  assumes wf: "tokens_wf vt" and tok: "map_of vt tok = Some (TDict d)"
    and unused: "used_time d = None" and pos: "0 < expire_time d" and past: "expire_time d < now"
  shows "map_of (fst (clean_expired_tokens vt now)) tok = None"
proof -
  have d: "distinct (map fst vt)" using wf by (simp add: tokens_wf_def)
  show ?thesis using map_of_clean [OF d, of now tok] tok unused pos past by simp
qed

text \<open>
  Claim C5. In every store the program can reach, a token whose \<open>used_time\<close> is
  \<open>None\<close> and whose \<open>expire_time\<close> lies in the past is removed by
  \<open>clean_expired_tokens\<close>, and \<open>is_token_valid\<close> rejects that identifier at every
  clock reading afterwards, also after further sweeps.
\<close>

theorem sweep_removes_expired_unused:
  assumes reach: "reachable SECRET_PASSWORD vt" and tok: "map_of vt tok = Some (TDict d)"
    and unused: "used_time d = None" and past: "expire_time d < now"
  shows "\<not> dict_in tok (fst (clean_expired_tokens vt now))
         \<and> (\<forall>t. \<not> is_token_valid (sweeps (fst (clean_expired_tokens vt now)) ts) tok t)"
proof -
  have wf: "tokens_wf vt" using reach by (rule reachable_tokens_wf)
  have "(tok, TDict d) \<in> set vt" using tok by (rule map_of_SomeD)
  then have pos: "0 < expire_time d" using reachable_structured [OF reach] by fastforce
  have gone: "map_of (fst (clean_expired_tokens vt now)) tok = None"
    using wf tok unused pos past by (rule sweep_expired_unused_positive)
  have wf': "tokens_wf (fst (clean_expired_tokens vt now))" using wf by (rule tokens_wf_clean)
  have "map_of (sweeps (fst (clean_expired_tokens vt now)) ts) tok = None"
    using map_of_sweeps [OF wf', of ts tok] gone by simp
  then have "\<forall>t. \<not> is_token_valid (sweeps (fst (clean_expired_tokens vt now)) ts) tok t"
    by (simp add: is_token_valid_def dict_in_def)
  with gone show ?thesis by (simp add: dict_in_def)
qed

theorem sweep_removes_expired_unused_witness:
  "reachable ''secret'' (fst (verify_secret ''secret'' [] ''secret'' ''tok'' 1000))
   \<and> map_of (fst (verify_secret ''secret'' [] ''secret'' ''tok'' 1000)) ''tok''
       = Some (TDict \<lparr>expire_time = 1300, used_time = None\<rparr>)
   \<and> (1300::real) < 1301
   \<and> \<not> dict_in ''tok'' (fst (clean_expired_tokens
                               (fst (verify_secret ''secret'' [] ''secret'' ''tok'' 1000)) 1301))
   \<and> \<not> is_token_valid (sweeps (fst (clean_expired_tokens
                               (fst (verify_secret ''secret'' [] ''secret'' ''tok'' 1000)) 1301))
                          [1400]) ''tok'' 1200"
proof -
  have r: "reachable ''secret'' (fst (verify_secret ''secret'' [] ''secret'' ''tok'' 1000))"
    by (rule reachable.issue [OF reachable.start]) simp_all
  have m: "map_of (fst (verify_secret ''secret'' [] ''secret'' ''tok'' 1000)) ''tok''
           = Some (TDict \<lparr>expire_time = 1300, used_time = None\<rparr>)"
    by (simp add: verify_secret_def)
  from sweep_removes_expired_unused [OF r m, of 1301 "[1400]"] r m show ?thesis by simp
qed

section \<open>Single use of a token\<close>

text \<open>
  The two steps of the handler, taken without interruption, are \<open>index\<close>.
\<close>

lemma index_check_store:
  "(case index_check vt tok tc of
      (vt', Inl r) \<Rightarrow> (vt', Responded r)
    | (vt', Inr p) \<Rightarrow> index_store vt' tok p tu)
   = (fst (index vt tok tc tu), Responded (snd (index vt tok tc tu)))"
  by (simp add: index_def index_check_def Let_def
           split: option.splits token_info.splits)

text \<open>
  Claim C1 as stated fails. Two request threads carry the same freshly issued token. Each
  runs its check before either runs its store (schedule \<open>0, 1, 0, 1\<close>): both read
  \<open>used_time = None\<close>, both store, and both render the secret page.
\<close>

theorem concurrent_double_consume:
  "run ''tok'' [0, 1, 0, 1]
     ([(''tok'', TDict \<lparr>expire_time = 300, used_time = None\<rparr>)],
      [\<lparr>clock_clean = 10, clock_use = 11, progress = Start\<rparr>,
       \<lparr>clock_clean = 10, clock_use = 12, progress = Start\<rparr>])
   = ([(''tok'', TDict \<lparr>expire_time = 300, used_time = Some 12\<rparr>)],
      [\<lparr>clock_clean = 10, clock_use = 11, progress = Done (Responded (Page True))\<rparr>,
       \<lparr>clock_clean = 10, clock_use = 12, progress = Done (Responded (Page True))\<rparr>])"
  by (simp add: run_def step_def index_check_def clean_expired_tokens_def Let_def)

lemma index_seq_reused:
  assumes "tokens_wf vt" and "map_of vt tok = Some (TDict d)" and "used_time d = Some u"
    and "\<forall>c\<in>set calls. fst c \<le> u + 3600"
  shows "snd (index_seq vt tok calls) = replicate (length calls) AlertReused"
  using assms
proof (induction calls arbitrary: vt)
  case Nil
  show ?case by simp
next
  case (Cons c calls)
  obtain tc tu where c: "c = (tc, tu)" by (cases c)
  have ne: "tok \<noteq> []" using Cons.prems(1,2) by (rule wf_key_nonempty)
  have dist: "distinct (map fst vt)" using Cons.prems(1) by (simp add: tokens_wf_def)
  let ?v1 = "fst (clean_expired_tokens vt tc)"
  have "tc \<le> u + 3600" using Cons.prems(4) c by simp
  then have m1: "map_of ?v1 tok = Some (TDict d)"
    using map_of_clean [OF dist, of tc tok] Cons.prems(2,3)
    by (simp add: TOKEN_USED_CLEANUP_TIME_def)
  have ix: "index vt tok tc tu = (?v1, AlertReused)"
    using m1 ne Cons.prems(3) by (simp add: index_def Let_def)
  have wf1: "tokens_wf ?v1" using Cons.prems(1) by (rule tokens_wf_clean)
  have rest: "\<forall>c\<in>set calls. fst c \<le> u + 3600" using Cons.prems(4) by simp
  have "snd (index_seq ?v1 tok calls) = replicate (length calls) AlertReused"
    using Cons.IH [OF wf1 m1 Cons.prems(3) rest] .
  then show ?case using ix c by (auto split: prod.splits)
qed

text \<open>
  Claim C1, as the code has it. When the requests that carry a freshly issued token are
  handled one after the other, each within the token's window (the first sweep no later
  than \<open>expire_time\<close>, the later ones within the hour after the first use), exactly the
  first renders the secret page and every other one gets the alert that the link cannot be
  used again.
\<close>

theorem sequential_single_consume:
  assumes wf: "tokens_wf vt0" and ne: "token \<noteq> []"
    and issue: "vt = fst (verify_secret SECRET_PASSWORD vt0 SECRET_PASSWORD token now)"
    and w1: "tc1 \<le> now + 300"
    and w2: "\<forall>c\<in>set calls. fst c \<le> tu1 + 3600"
  shows "snd (index_seq vt token ((tc1, tu1) # calls))
         = Page True # replicate (length calls) AlertReused"
proof -
  let ?d = "\<lparr>expire_time = now + 300, used_time = None\<rparr>"
  have vt: "vt = AList.update token (TDict ?d) vt0"
    using issue by (simp add: verify_secret_def)
  have m: "map_of vt token = Some (TDict ?d)" unfolding vt by (simp add: update_conv')
  have wfv: "tokens_wf vt" unfolding vt using wf ne by (rule tokens_wf_update)
  have dist: "distinct (map fst vt)" using wfv by (simp add: tokens_wf_def)
  let ?c1 = "fst (clean_expired_tokens vt tc1)"
  let ?v1 = "AList.update token (TDict (?d\<lparr>used_time := Some tu1\<rparr>)) ?c1"
  have mc: "map_of ?c1 token = Some (TDict ?d)"
    using map_of_clean [OF dist, of tc1 token] m w1 by simp
  have ix: "index vt token tc1 tu1 = (?v1, Page True)"
    using mc ne by (simp add: index_def Let_def)
  have wf1: "tokens_wf ?v1" using wfv ne by (simp add: tokens_wf_update tokens_wf_clean)
  have m1: "map_of ?v1 token = Some (TDict (?d\<lparr>used_time := Some tu1\<rparr>))"
    by (simp add: update_conv')
  have "snd (index_seq ?v1 token calls) = replicate (length calls) AlertReused"
    using index_seq_reused [OF wf1 m1 _ w2] by simp
  then show ?thesis using ix by (auto split: prod.splits)
qed

theorem sequential_single_consume_witness:
  "tokens_wf [] \<and> ''tok'' \<noteq> [] \<and> (1010::real) \<le> 1000 + 300
   \<and> (1020::real) \<le> 1011 + 3600 \<and> (1030::real) \<le> 1011 + 3600
   \<and> snd (index_seq (fst (verify_secret ''secret'' [] ''secret'' ''tok'' 1000)) ''tok''
             [(1010, 1011), (1020, 1021), (1030, 1031)])
       = [Page True, AlertReused, AlertReused]"
  using sequential_single_consume [of "[]" "''tok''"
      "fst (verify_secret ''secret'' [] ''secret'' ''tok'' 1000)" "''secret''" 1000
      1010 "[(1020, 1021), (1030, 1031)]" 1011]
  by (simp add: tokens_wf_def)

section \<open>Reuse of the cached listing\<close>

lemma get_video_list_stores_result:
  assumes "get_video_list R S fs cache is_secret force t = (cache', r)"
  shows "files (cache' (if is_secret then ''secret'' else ''normal'')) = r"
  using assms
  by (auto simp: get_video_list_def Let_def split: if_splits option.splits)

text \<open>
  Claim C6, as the code has it. The cache is only consulted when the cached list is not
  empty. After any call that returned a non-empty list, a call without \<open>force_refresh\<close>
  within \<open>VIDEO_CACHE_EXPIRE\<close> of the stored timestamp returns the same list and
  leaves the cache as it is, whatever the file system holds by then. After a call that
  returned the empty list (a missing root among the cases), the next call scans again and
  returns what the file system holds by then.
\<close>

theorem cached_listing_reused:
  assumes first: "get_video_list R S fs1 cache is_secret force t1 = (cache1, r1)"
  shows "(r1 \<noteq> [] \<and> t2 - last_update (cache1 (if is_secret then ''secret'' else ''normal''))
                       < VIDEO_CACHE_EXPIRE
            \<longrightarrow> get_video_list R S fs2 cache1 is_secret False t2 = (cache1, r1))
         \<and> (r1 = [] \<longrightarrow>
              snd (get_video_list R S fs2 cache1 is_secret False t2)
              = (case fs2 (if is_secret then S else R) of None \<Rightarrow> [] | Some w \<Rightarrow> scan_videos w))"
proof -
  have f: "files (cache1 (if is_secret then ''secret'' else ''normal'')) = r1"
    using first by (rule get_video_list_stores_result)
  show ?thesis
    using f by (auto simp: get_video_list_def Let_def split: option.splits)
qed

lemma scan_one: "scan_videos [(''.'', [''a.mp4'', ''notes.txt''])] = [''a.mp4'']"
  by (simp add: scan_videos_def video_suffixes_def endswith_def lower_def lower_char_def)

text \<open>
  The claim as stated fails for the empty list: the root is missing at the first call,
  which returns \<open>[]\<close> and stores it with the timestamp 1000; one second later the root
  exists and holds a video, and the second call returns that video.
\<close>

theorem empty_listing_not_reused:
  "get_video_list ''/share'' ''/secret'' Map.empty video_list_cache_init False False 1000
     = (video_list_cache_init(''normal'' := \<lparr>files = [], last_update = 1000\<rparr>), [])
   \<and> 1001 - last_update ((video_list_cache_init(''normal'' := \<lparr>files = [], last_update = 1000\<rparr>))
                            ''normal'') < VIDEO_CACHE_EXPIRE
   \<and> snd (get_video_list ''/share'' ''/secret''
            (Map.empty(''/share'' \<mapsto> [(''.'', [''a.mp4'', ''notes.txt''])]))
            (video_list_cache_init(''normal'' := \<lparr>files = [], last_update = 1000\<rparr>))
            False False 1001) = [''a.mp4'']"
  by (simp add: get_video_list_def video_list_cache_init_def VIDEO_CACHE_EXPIRE_def scan_one Let_def)

theorem cached_listing_reused_witness:
  "get_video_list ''/share'' ''/secret''
      (Map.empty(''/share'' \<mapsto> [(''.'', [''a.mp4'', ''notes.txt''])]))
      video_list_cache_init False False 1000
     = (video_list_cache_init(''normal'' := \<lparr>files = [''a.mp4''], last_update = 1000\<rparr>), [''a.mp4''])
   \<and> get_video_list ''/share'' ''/secret'' Map.empty
        (video_list_cache_init(''normal'' := \<lparr>files = [''a.mp4''], last_update = 1000\<rparr>))
        False False 1299
     = (video_list_cache_init(''normal'' := \<lparr>files = [''a.mp4''], last_update = 1000\<rparr>), [''a.mp4''])"
  using cached_listing_reused [of "''/share''" "''/secret''"
      "Map.empty(''/share'' \<mapsto> [(''.'', [''a.mp4'', ''notes.txt''])])"
      video_list_cache_init False False 1000
      "video_list_cache_init(''normal'' := \<lparr>files = [''a.mp4''], last_update = 1000\<rparr>)"
      "[''a.mp4'']" 1299 Map.empty]
  by (simp add: get_video_list_def video_list_cache_init_def VIDEO_CACHE_EXPIRE_def scan_one Let_def)

section \<open>Size of the connection registry\<close>

lemma fold_delete_filter:
  "fold AList.delete ks d = filter (\<lambda>p. fst p \<notin> set ks) d"
proof (induction ks arbitrary: d)
  case Nil
  show ?case by simp
next
  case (Cons k ks)
  have "fold AList.delete (k # ks) d = filter (\<lambda>p. fst p \<notin> set ks) (AList.delete k d)"
    using Cons.IH by simp
  also have "\<dots> = filter (\<lambda>p. fst p \<notin> set (k # ks)) d"
    by (auto simp: AList.delete_eq intro: filter_cong)
  finally show ?case .
qed

lemma length_fold_delete_sublist:
  assumes d: "distinct (map fst d)" and sub: "set T \<subseteq> set d" and dT: "distinct T"
  shows "length (fold AList.delete (map fst T) d) + length T = length d"
proof -
  let ?P = "\<lambda>p. fst p \<in> fst ` set T"
  have dd: "distinct d" using d by (rule distinct_map [THEN iffD1, THEN conjunct1])
  have "set (filter ?P d) = set T"
  proof
    show "set (filter ?P d) \<subseteq> set T"
    proof
      fix p assume "p \<in> set (filter ?P d)"
      then have pd: "p \<in> set d" and "fst p \<in> fst ` set T" by auto
      then obtain q where qT: "q \<in> set T" and fq: "fst q = fst p" by auto
      have "q \<in> set d" using qT sub by blast
      with pd fq d have "p = q" by (metis distinct_map inj_on_def)
      with qT show "p \<in> set T" by simp
    qed
    show "set T \<subseteq> set (filter ?P d)" using sub by auto
  qed
  moreover have "distinct (filter ?P d)" using dd by simp
  ultimately have "length (filter ?P d) = length T"
    using dT by (metis distinct_card)
  moreover have "length (filter ?P d) + length (filter (\<lambda>p. \<not> ?P p) d) = length d"
    by (rule sum_length_filter_compl)
  ultimately show ?thesis by (simp add: fold_delete_filter)
qed

lemma cleanup_oldest_connections_length:
  assumes d: "distinct (map fst conns)" and full: "length conns \<ge> MAX_CONNECTIONS"
  shows "\<exists>conns'. cleanup_oldest_connections False 10 conns = Some conns'
           \<and> length conns' + 10 = length conns \<and> distinct (map fst conns')
           \<and> set conns' \<subseteq> set conns"
proof -
  let ?T = "take 10 (sort_key (\<lambda>x. last_seen (snd x)) conns)"
  let ?c = "fold AList.delete (map fst ?T) conns"
  have dd: "distinct conns" using d by (rule distinct_map [THEN iffD1, THEN conjunct1])
  have sub: "set ?T \<subseteq> set conns" using set_take_subset [of 10] by fastforce
  have dT: "distinct ?T" using dd by simp
  have "length ?T = 10" using full by (simp add: MAX_CONNECTIONS_def)
  with length_fold_delete_sublist [OF d sub dT] have "length ?c + 10 = length conns" by simp
  moreover have "distinct (map fst ?c)" using d by (rule distinct_fold_delete)
  moreover have "set ?c \<subseteq> set conns" by (rule set_fold_delete)
  moreover have "cleanup_oldest_connections False 10 conns = Some ?c"
    using full by (simp add: cleanup_oldest_connections_def)
  ultimately show ?thesis by blast
qed


lemma dict_in_keys: "dict_in k d \<longleftrightarrow> k \<in> fst ` set d"
  by (simp add: dict_in_def map_of_eq_None_iff)

lemma length_map_entry: "length (AList.map_entry k f d) = length d"
  by (induction d) auto

lemma length_update_new: "k \<notin> fst ` set d \<Longrightarrow> length (AList.update k v d) = Suc (length d)"
  by (induction d) auto

lemma track_connection_bounded:
  assumes d: "distinct (map fst conns)" and le: "length conns \<le> MAX_CONNECTIONS"
  shows "\<exists>conns' ic'. track_connection (conns, ic) request = Some (conns', ic')
           \<and> distinct (map fst conns') \<and> length conns' \<le> MAX_CONNECTIONS
           \<and> (path request \<notin> set [''/monitor'', ''/monitor-data'']
                \<longrightarrow> dict_in (remote_addr request) conns')"
proof (cases "path request \<in> set [''/monitor'', ''/monitor-data'']")
  case True
  with d le show ?thesis by (simp add: track_connection_def)
next
  case other: False
  let ?ip = "remote_addr request"
  show ?thesis
  proof (cases "dict_in ?ip conns")
    case True
    then have "track_connection (conns, ic) request =
                 Some (AList.map_entry ?ip
                         (\<lambda>info. info\<lparr>last_seen := t_seen request,
                                       client_port := remote_port request\<rparr>) conns, ic)"
      using other by (simp add: track_connection_def Let_def)
    moreover have "dict_in ?ip (AList.map_entry ?ip
                         (\<lambda>info. info\<lparr>last_seen := t_seen request,
                                       client_port := remote_port request\<rparr>) conns)"
      using True by (simp add: dict_in_keys dom_map_entry)
    ultimately show ?thesis using d le by (simp add: length_map_entry distinct_map_entry)
  next
    case new: False
    then have notin: "?ip \<notin> fst ` set conns" by (simp add: dict_in_keys)
    obtain conns1 where c1: "(if \<not> dict_in ?ip conns \<and> length conns \<ge> MAX_CONNECTIONS
                               then cleanup_oldest_connections False 10 conns
                               else Some conns) = Some conns1"
      and d1: "distinct (map fst conns1)" and l1: "length conns1 < MAX_CONNECTIONS"
      and s1: "set conns1 \<subseteq> set conns"
    proof (cases "length conns \<ge> MAX_CONNECTIONS")
      case True
      from cleanup_oldest_connections_length [OF d True]
      obtain c where "cleanup_oldest_connections False 10 conns = Some c"
        and "length c + 10 = length conns" and "distinct (map fst c)" and "set c \<subseteq> set conns"
        by blast
      with True new le that [of c] show ?thesis by simp
    next
      case False
      with d that [of conns] show ?thesis by simp
    qed
    have notin1: "?ip \<notin> fst ` set conns1" using notin s1 by blast
    then have new1: "\<not> dict_in ?ip conns1" by (simp add: dict_in_keys)
    obtain ic' name where gi: "get_interface_name (psutil_net_if_addrs request) ic
                                 (takeWhile (\<lambda>c. c \<noteq> CHR '':'') (host request))
                                 (t_interface request) = (ic', name)"
      by (cases "get_interface_name (psutil_net_if_addrs request) ic
                   (takeWhile (\<lambda>c. c \<noteq> CHR '':'') (host request)) (t_interface request)")
    let ?info = "\<lparr>server_ip = takeWhile (\<lambda>c. c \<noteq> CHR '':'') (host request),
                  client_port = remote_port request, interface = name,
                  last_seen = t_seen request, video_title = NOT_PLAYING, position = 0,
                  duration = 0, bandwidth_down = 0, bandwidth_up = 0,
                  connected_at = now_string request\<rparr>"
    have "track_connection (conns, ic) request = Some (AList.update ?ip ?info conns1, ic')"
      using other c1 new1 l1 gi
      by (simp add: track_connection_def Let_def del: set_simps)
    moreover have "distinct (map fst (AList.update ?ip ?info conns1))"
      using d1 by (rule distinct_update)
    moreover have "length (AList.update ?ip ?info conns1) \<le> MAX_CONNECTIONS"
      using l1 notin1 by (simp add: length_update_new)
    moreover have "dict_in ?ip (AList.update ?ip ?info conns1)"
      by (simp add: dict_in_def update_conv')
    ultimately show ?thesis by blast
  qed
qed

lemma oldest_first:
  fixes f :: "'a \<Rightarrow> real"
  assumes "e \<in> set (take n (sort_key f xs))" and "p \<in> set (drop n (sort_key f xs))"
  shows "f e \<le> f p"
proof -
  have "sorted (map f (take n (sort_key f xs) @ drop n (sort_key f xs)))"
    by (simp only: append_take_drop_id sorted_sort_key)
  then have "sorted (map f (take n (sort_key f xs)) @ map f (drop n (sort_key f xs)))"
    by (simp only: map_append)
  then have "\<forall>x\<in>set (map f (take n (sort_key f xs))).
               \<forall>y\<in>set (map f (drop n (sort_key f xs))). x \<le> y"
    by (simp only: sorted_append) blast
  moreover have "f e \<in> set (map f (take n (sort_key f xs)))" using assms(1) by simp
  moreover have "f p \<in> set (map f (drop n (sort_key f xs)))" using assms(2) by simp
  ultimately show ?thesis by blast
qed

lemma update_new_append: "k \<notin> fst ` set d \<Longrightarrow> AList.update k v d = d @ [(k, v)]"
  by (induction d) auto

lemma track_connection_at_capacity:
  assumes d: "distinct (map fst conns)" and full: "length conns = MAX_CONNECTIONS"
    and new: "remote_addr request \<notin> fst ` set conns"
    and other: "path request \<notin> set [''/monitor'', ''/monitor-data'']"
  shows "\<exists>conns' ic'. track_connection (conns, ic) request = Some (conns', ic')
           \<and> length conns' = 91 \<and> dict_in (remote_addr request) conns'
           \<and> (\<forall>e\<in>set conns. e \<notin> set conns' \<longrightarrow>
                 (\<forall>p\<in>set conns \<inter> set conns'. last_seen (snd e) \<le> last_seen (snd p)))"
proof -
  let ?ip = "remote_addr request"
  let ?S = "sort_key (\<lambda>x. last_seen (snd x)) conns"
  let ?T = "take 10 ?S"
  let ?c1 = "fold AList.delete (map fst ?T) conns"
  have dd: "distinct conns" using d by (rule distinct_map [THEN iffD1, THEN conjunct1])
  have sub: "set ?T \<subseteq> set conns" using set_take_subset [of 10 ?S] by simp
  have dT: "distinct ?T" using dd by simp
  have lT: "length ?T = 10" using full by (simp add: MAX_CONNECTIONS_def)
  have l1: "length ?c1 = 90"
    using length_fold_delete_sublist [OF d sub dT] lT full by (simp add: MAX_CONNECTIONS_def)
  have c1: "cleanup_oldest_connections False 10 conns = Some ?c1"
    using full by (simp add: cleanup_oldest_connections_def)
  have s1: "set ?c1 \<subseteq> set conns" by (rule set_fold_delete)
  have notin1: "?ip \<notin> fst ` set ?c1" using new s1 by blast
  have nd: "\<not> dict_in ?ip conns" using new by (simp add: dict_in_keys)
  have nd1: "\<not> dict_in ?ip ?c1" using notin1 by (simp add: dict_in_keys)
  obtain ic' name where gi: "get_interface_name (psutil_net_if_addrs request) ic
                               (takeWhile (\<lambda>c. c \<noteq> CHR '':'') (host request))
                               (t_interface request) = (ic', name)"
    by (cases "get_interface_name (psutil_net_if_addrs request) ic
                 (takeWhile (\<lambda>c. c \<noteq> CHR '':'') (host request)) (t_interface request)")
  let ?info = "\<lparr>server_ip = takeWhile (\<lambda>c. c \<noteq> CHR '':'') (host request),
                client_port = remote_port request, interface = name,
                last_seen = t_seen request, video_title = NOT_PLAYING, position = 0,
                duration = 0, bandwidth_down = 0, bandwidth_up = 0,
                connected_at = now_string request\<rparr>"
  let ?c' = "AList.update ?ip ?info ?c1"
  have tr: "track_connection (conns, ic) request = Some (?c', ic')"
    using other c1 nd nd1 l1 gi full
    by (simp add: track_connection_def Let_def MAX_CONNECTIONS_def del: set_simps)
  have len: "length ?c' = 91" using l1 notin1 by (simp add: length_update_new)
  have inn: "dict_in ?ip ?c'" by (simp add: dict_in_def update_conv')
  have app: "?c' = ?c1 @ [(?ip, ?info)]" using notin1 by (rule update_new_append)
  have set': "set ?c' \<subseteq> insert (?ip, ?info) (set ?c1)"
    by (simp only: app) auto
  have old: "last_seen (snd e) \<le> last_seen (snd p)"
    if e: "e \<in> set conns" "e \<notin> set ?c'" and p: "p \<in> set conns" "p \<in> set ?c'" for e p
  proof -
    have c1f: "?c1 = filter (\<lambda>q. fst q \<notin> set (map fst ?T)) conns" by (rule fold_delete_filter)
    have "set ?c1 \<subseteq> set ?c'" by (simp only: app) auto
    then have "e \<notin> set ?c1" using e(2) by blast
    then have "fst e \<in> fst ` set ?T" using e(1) c1f by auto
    then obtain q where q: "q \<in> set ?T" "fst q = fst e" by auto
    then have "q \<in> set conns" using sub by blast
    with q e(1) d have "e = q" by (metis distinct_map inj_on_def)
    then have eT: "e \<in> set ?T" using q by simp
    have "p \<noteq> (?ip, ?info)" using p(1) new by force
    then have "p \<in> set ?c1" using p(2) set' by blast
    then have "fst p \<notin> fst ` set ?T" using c1f by auto
    then have "p \<notin> set ?T" by blast
    moreover have "p \<in> set ?S" using p(1) by simp
    ultimately have "p \<in> set (drop 10 ?S)"
      by (metis Un_iff append_take_drop_id set_append)
    with eT show ?thesis by (rule oldest_first)
  qed
  show ?thesis using tr len inn old by blast
qed

lemma track_all_bounded:
  assumes "distinct (map fst conns)" and "length conns \<le> MAX_CONNECTIONS"
  shows "\<exists>conns' ic'. track_all (conns, ic) requests = Some (conns', ic')
           \<and> distinct (map fst conns') \<and> length conns' \<le> MAX_CONNECTIONS"
  using assms
proof (induction requests arbitrary: conns ic)
  case Nil
  then show ?case by simp
next
  case (Cons request requests)
  from track_connection_bounded [OF Cons.prems, of ic request]
  obtain c1 i1 where st: "track_connection (conns, ic) request = Some (c1, i1)"
    and d1: "distinct (map fst c1)" and l1: "length c1 \<le> MAX_CONNECTIONS"
    by blast
  from Cons.IH [OF d1 l1, of i1] st show ?case by simp
qed

lemma track_all_snoc:
  "track_all st (requests @ [request]) =
     (case track_all st requests of None \<Rightarrow> None | Some st' \<Rightarrow> track_connection st' request)"
  by (induction requests arbitrary: st) (auto split: option.splits)

text \<open>
  Claim C7. Start from a registry with distinct addresses and at most
  \<open>MAX_CONNECTIONS\<close> entries (the empty one at start-up is such). Any sequence of
  tracked requests, from whatever addresses, runs to its end and leaves at most
  \<open>MAX_CONNECTIONS\<close> entries; so does the sequence with one more request, and the
  address of that request, unless it is a monitor request, is then in the registry. When
  that address is new and the registry is at capacity, the entries that go are the oldest
  by \<open>last_seen\<close> (none of them was seen later than any entry that stays) and, the new
  session inserted, 91 remain.
\<close>

theorem registry_never_exceeds_maximum:
  assumes "distinct (map fst conns)" and "length conns \<le> MAX_CONNECTIONS"
  shows "\<exists>c1 i1 c2 i2.
           track_all (conns, ic) requests = Some (c1, i1) \<and> length c1 \<le> MAX_CONNECTIONS
         \<and> track_all (conns, ic) (requests @ [request]) = Some (c2, i2)
         \<and> length c2 \<le> MAX_CONNECTIONS
         \<and> (path request \<notin> set [''/monitor'', ''/monitor-data'']
              \<longrightarrow> dict_in (remote_addr request) c2)
         \<and> (path request \<notin> set [''/monitor'', ''/monitor-data'']
              \<and> \<not> dict_in (remote_addr request) c1 \<and> length c1 = MAX_CONNECTIONS
              \<longrightarrow> length c2 = 91
                  \<and> (\<forall>e\<in>set c1. e \<notin> set c2 \<longrightarrow>
                        (\<forall>p\<in>set c1 \<inter> set c2. last_seen (snd e) \<le> last_seen (snd p))))"
proof -
  from track_all_bounded [OF assms, of ic requests]
  obtain c1 i1 where t1: "track_all (conns, ic) requests = Some (c1, i1)"
    and d1: "distinct (map fst c1)" and l1: "length c1 \<le> MAX_CONNECTIONS"
    by blast
  from track_connection_bounded [OF d1 l1, of i1 request]
  obtain c2 i2 where t2: "track_connection (c1, i1) request = Some (c2, i2)"
    and l2: "length c2 \<le> MAX_CONNECTIONS"
    and reg: "path request \<notin> set [''/monitor'', ''/monitor-data'']
              \<longrightarrow> dict_in (remote_addr request) c2"
    by blast
  have t12: "track_all (conns, ic) (requests @ [request]) = Some (c2, i2)"
    using t1 t2 by (simp add: track_all_snoc)
  have cap: "length c2 = 91
             \<and> (\<forall>e\<in>set c1. e \<notin> set c2 \<longrightarrow>
                   (\<forall>p\<in>set c1 \<inter> set c2. last_seen (snd e) \<le> last_seen (snd p)))"
    if other: "path request \<notin> set [''/monitor'', ''/monitor-data'']"
      and new: "\<not> dict_in (remote_addr request) c1" and full: "length c1 = MAX_CONNECTIONS"
  proof -
    have notin: "remote_addr request \<notin> fst ` set c1" using new by (simp add: dict_in_keys)
    from track_connection_at_capacity [OF d1 full notin other, of i1]
    obtain c' i' where "track_connection (c1, i1) request = Some (c', i')"
      and "length c' = 91"
      and "\<forall>e\<in>set c1. e \<notin> set c' \<longrightarrow>
             (\<forall>p\<in>set c1 \<inter> set c'. last_seen (snd e) \<le> last_seen (snd p))"
      by blast
    with t2 show ?thesis by simp
  qed
  from t1 l1 t12 l2 reg cap show ?thesis by blast
qed

section \<open>Decimal strings and the range header\<close>

lemma is_digit_char_of: "(d::nat) < 10 \<Longrightarrow> is_digit (char_of (48 + d))"
  by (simp add: is_digit_def)

lemma digit_val_char_of: "(d::nat) < 10 \<Longrightarrow> digit_val (char_of (48 + d)) = d"
  by (simp add: digit_val_def)

lemma digit_string_str_nat: "digit_string (str_nat n)"
proof (induction n rule: str_nat.induct)
  case (1 n)
  show ?case
  proof (cases "n < 10")
    case True
    then show ?thesis
      by (subst str_nat.simps) (simp add: digit_string_def is_digit_char_of)
  next
    case False
    have "n mod 10 < 10" by simp
    then have "is_digit (char_of (48 + n mod 10))" by (rule is_digit_char_of)
    with 1 False show ?thesis
      by (subst str_nat.simps) (simp add: digit_string_def)
  qed
qed

lemma digits_value_snoc: "digits_value (ds @ [c]) = 10 * digits_value ds + digit_val c"
  by (simp add: digits_value_def)

lemma digits_value_str_nat: "digits_value (str_nat n) = n"
proof (induction n rule: str_nat.induct)
  case (1 n)
  show ?case
  proof (cases "n < 10")
    case True
    then show ?thesis
      by (subst str_nat.simps) (simp add: digits_value_def digit_val_char_of)
  next
    case False
    have "digit_val (char_of (48 + n mod 10)) = n mod 10"
      by (rule digit_val_char_of) simp
    with 1 False show ?thesis
      by (subst str_nat.simps) (simp add: digits_value_snoc)
  qed
qed

lemma digit_not_special:
  assumes "is_digit c"
  shows "\<not> is_space c" and "c \<noteq> CHR ''-''" and "c \<noteq> CHR ''+''" and "c \<noteq> CHR ''_''"
    and "c \<noteq> CHR ''b''"
  using assms by (auto simp: is_digit_def is_space_def)

lemma valid_literal_digits: "digit_string ds \<Longrightarrow> valid_literal ds"
proof (induction ds rule: valid_literal.induct)
  case 1
  then show ?case by (simp add: digit_string_def)
next
  case (2 c)
  then show ?case by (simp add: digit_string_def)
next
  case (3 c d cs)
  then have "is_digit d" and "digit_string (d # cs)" by (simp_all add: digit_string_def)
  with 3 show ?case using digit_not_special(4) [of d] by (simp add: digit_string_def)
qed

lemma dropWhile_none: "\<forall>x\<in>set xs. \<not> P x \<Longrightarrow> dropWhile P xs = xs"
  by (cases xs) simp_all

lemma strip_digits: "digit_string ds \<Longrightarrow> strip ds = ds"
proof -
  assume ds: "digit_string ds"
  then have ns: "\<forall>c\<in>set ds. \<not> is_space c"
    by (simp add: digit_string_def digit_not_special(1))
  then have "dropWhile is_space ds = ds" by (rule dropWhile_none)
  moreover have "dropWhile is_space (rev ds) = rev ds"
    by (rule dropWhile_none) (simp add: ns)
  ultimately show ?thesis by (simp add: strip_def)
qed

lemma py_int_digits:
  assumes "digit_string ds"
  shows "py_int ds = Some (int (digits_value ds))"
proof -
  obtain c cs where ds: "ds = c # cs" using assms by (cases ds) (auto simp: digit_string_def)
  have c: "is_digit c" using assms ds by (simp add: digit_string_def)
  have f: "filter (\<lambda>c. c \<noteq> CHR ''_'') ds = ds"
    using assms by (auto simp: digit_string_def digit_not_special(4) filter_id_conv)
  show ?thesis
    using strip_digits [OF assms] valid_literal_digits [OF assms] f
      digit_not_special(2,3) [OF c]
    by (simp add: py_int_def ds)
qed

lemma py_int_str_nat: "py_int (str_nat n) = Some (int n)"
  by (simp add: py_int_digits digit_string_str_nat digits_value_str_nat)

lemma py_str_int: "py_str (int n) = str_nat n"
  by (simp add: py_str_def)


lemma py_replace_no_b: "CHR ''b'' \<notin> set s \<Longrightarrow> py_replace s ''bytes='' [] = s"
  by (induction s) (auto simp: startswith_def)

lemma py_split_no_sep: "sep \<notin> set s \<Longrightarrow> py_split s sep = [s]"
  by (induction s) auto

lemma py_split_at: "sep \<notin> set xs \<Longrightarrow> py_split (xs @ sep # ys) sep = xs # py_split ys sep"
  by (induction xs) auto

lemma py_split_nonempty: "py_split s sep \<noteq> []"
  by (induction s) (auto split: list.splits)

lemma py_replace_header:
  assumes "CHR ''b'' \<notin> set s"
  shows "py_replace (''bytes='' @ s) ''bytes='' [] = s"
  using py_replace_no_b [OF assms] by (simp add: startswith_def)


section \<open>Range requests\<close>

lemma str_nat_chars:
  "CHR ''b'' \<notin> set (str_nat n)" "CHR ''-'' \<notin> set (str_nat n)" "str_nat n \<noteq> []"
  using digit_string_str_nat [of n] digit_not_special(2,5)
  by (auto simp: digit_string_def)

lemma split_closed_range:
  "py_split (py_replace (''bytes='' @ str_nat A @ ''-'' @ str_nat B) ''bytes='' []) (CHR ''-'')
   = [str_nat A, str_nat B]"
proof -
  have "CHR ''b'' \<notin> set (str_nat A @ ''-'' @ str_nat B)"
    using str_nat_chars(1) by simp
  then have "py_replace (''bytes='' @ (str_nat A @ ''-'' @ str_nat B)) ''bytes='' []
             = str_nat A @ ''-'' @ str_nat B"
    by (rule py_replace_header)
  moreover have "py_split (str_nat A @ CHR ''-'' # str_nat B) (CHR ''-'')
                 = str_nat A # py_split (str_nat B) (CHR ''-'')"
    using str_nat_chars(2) by (rule py_split_at)
  moreover have "py_split (str_nat B) (CHR ''-'') = [str_nat B]"
    using str_nat_chars(2) by (rule py_split_no_sep)
  ultimately show ?thesis by simp
qed

lemma split_open_range:
  "py_split (py_replace (''bytes='' @ str_nat A @ ''-'') ''bytes='' []) (CHR ''-'')
   = [str_nat A, []]"
proof -
  have "CHR ''b'' \<notin> set (str_nat A @ ''-'')"
    using str_nat_chars(1) by simp
  then have "py_replace (''bytes='' @ (str_nat A @ ''-'')) ''bytes='' [] = str_nat A @ ''-''"
    by (rule py_replace_header)
  moreover have "py_split (str_nat A @ CHR ''-'' # []) (CHR ''-'')
                 = str_nat A # py_split [] (CHR ''-'')"
    using str_nat_chars(2) by (rule py_split_at)
  ultimately show ?thesis by simp
qed

lemma video_range:
  assumes fl: "fs (os_path_join (if is_token_valid vt (secretnumber request) now then SR else R)
                       (filename request)) = Some data"
    and rh: "range_header request = Some rh" "rh \<noteq> []"
    and split: "py_split (py_replace rh ''bytes='' []) (CHR ''-'') = m0 # m1 # ms"
    and b1: "(if m0 \<noteq> [] then py_int m0 else Some 0) = Some b1"
    and b2: "(if m1 \<noteq> [] then py_int m1 else Some (int (length data) - 1)) = Some b2"
  shows "video R SR fs vt request now =
           Inr \<lparr>status = 206,
                mimetype = (case map_of mime_types (lower (splitext_ext (filename request))) of
                              None \<Rightarrow> ''video/mp4'' | Some t \<Rightarrow> t),
                headers =
                  [(''Content-Range'',
                    ''bytes '' @ py_str (max 0 (min b1 (int (length data) - 1))) @ ''-''
                      @ py_str (max (max 0 (min b1 (int (length data) - 1)))
                                    (min b2 (int (length data) - 1)))
                      @ ''/'' @ py_str (int (length data))),
                   (''Accept-Ranges'', ''bytes''),
                   (''Content-Length'',
                    py_str (max (max 0 (min b1 (int (length data) - 1)))
                                (min b2 (int (length data) - 1))
                            - max 0 (min b1 (int (length data) - 1)) + 1))],
                body = []\<rparr>"
proof -
  have "fs (os_path_join (if is_token_valid vt (secretnumber request) now then SR else R)
              (filename request)) = Some data"
    by (rule fl)
  then show ?thesis
    unfolding video_def Let_def
    by (simp only: option.case rh split list.case b1 b2 if_False
                   response_class_def generate_range_def)
qed


lemma str_nat_examples: "str_nat 200 = ''200''" "str_nat 299 = ''299''" "str_nat 1000 = ''1000''"
  "str_nat 100 = ''100''" "str_nat 900 = ''900''" "str_nat 999 = ''999''"
  by code_simp+

text \<open>
  Claim C2, on the code. For a file of size \<open>S\<close> and \<open>Range: bytes=A-B\<close> with
  \<open>A \<le> B < S\<close> the response has status 206, \<open>Content-Range: bytes A-B/S\<close> and
  \<open>Content-Length: B-A+1\<close>, as the claim says; but its body is what
  \<open>generate_range()\<close> returns, which is \<open>None\<close>: no chunk is sent, where the claim
  has the \<open>B-A+1\<close> bytes of the file from offset \<open>A\<close>.
\<close>

theorem range_request_response:
  assumes fl: "fs (os_path_join (if is_token_valid vt (secretnumber request) now then SR else R)
                     (filename request)) = Some data"
    and rh: "range_header request = Some (''bytes='' @ str_nat A @ ''-'' @ str_nat B)"
    and AB: "A \<le> B" and BS: "B < length data"
  shows "video R SR fs vt request now =
           Inr \<lparr>status = 206,
                mimetype = (case map_of mime_types (lower (splitext_ext (filename request))) of
                              None \<Rightarrow> ''video/mp4'' | Some t \<Rightarrow> t),
                headers =
                  [(''Content-Range'',
                    ''bytes '' @ str_nat A @ ''-'' @ str_nat B @ ''/'' @ str_nat (length data)),
                   (''Accept-Ranges'', ''bytes''),
                   (''Content-Length'', str_nat (B - A + 1))],
                body = []\<rparr>"
proof -
  let ?S = "int (length data)"
  have b1: "(if str_nat A \<noteq> [] then py_int (str_nat A) else Some 0) = Some (int A)"
    by (simp add: py_int_str_nat str_nat_chars(3))
  have b2: "(if str_nat B \<noteq> [] then py_int (str_nat B) else Some (?S - 1)) = Some (int B)"
    by (simp add: py_int_str_nat str_nat_chars(3))
  have byte1: "max 0 (min (int A) (?S - 1)) = int A" using AB BS by simp
  have byte2: "max (int A) (min (int B) (?S - 1)) = int B" using AB BS by simp
  have len: "int B - int A + 1 = int (B - A + 1)" using AB by simp
  have "video R SR fs vt request now =
           Inr \<lparr>status = 206,
                mimetype = (case map_of mime_types (lower (splitext_ext (filename request))) of
                              None \<Rightarrow> ''video/mp4'' | Some t \<Rightarrow> t),
                headers =
                  [(''Content-Range'',
                    ''bytes '' @ py_str (max 0 (min (int A) (?S - 1))) @ ''-''
                      @ py_str (max (max 0 (min (int A) (?S - 1))) (min (int B) (?S - 1)))
                      @ ''/'' @ py_str ?S),
                   (''Accept-Ranges'', ''bytes''),
                   (''Content-Length'',
                    py_str (max (max 0 (min (int A) (?S - 1))) (min (int B) (?S - 1))
                            - max 0 (min (int A) (?S - 1)) + 1))],
                body = []\<rparr>"
    by (rule video_range [where fs = fs and vt = vt and request = request and now = now
                            and SR = SR and R = R and data = data, OF fl rh _ split_closed_range b1 b2])
       simp
  then show ?thesis
    by (simp only: byte1 byte2 len py_str_int)
qed

theorem range_request_response_witness:
  "video ''/srv/share'' ''/srv/secret''
     (Map.empty(''/srv/share/a.mp4'' \<mapsto> replicate 1000 (CHR ''x''))) []
     \<lparr>filename = ''a.mp4'', secretnumber = [], range_header = Some ''bytes=200-299''\<rparr> 0
   = Inr \<lparr>status = 206, mimetype = ''video/mp4'',
          headers = [(''Content-Range'', ''bytes 200-299/1000''), (''Accept-Ranges'', ''bytes''),
                     (''Content-Length'', ''100'')],
          body = []\<rparr>
   \<and> concat [] \<noteq> take 100 (drop 200 (replicate 1000 (CHR ''x'')))"
  using range_request_response [of "Map.empty(''/srv/share/a.mp4'' \<mapsto> replicate 1000 (CHR ''x''))"
      "[]" "\<lparr>filename = ''a.mp4'', secretnumber = [], range_header = Some ''bytes=200-299''\<rparr>"
      0 "''/srv/secret''" "''/srv/share''" "replicate 1000 (CHR ''x'')" 200 299]
  by (simp add: str_nat_examples is_token_valid_def os_path_join_def startswith_def endswith_def
                mime_types_def splitext_ext_def lower_def lower_char_def)

text \<open>
  Claim C8. For a file of size \<open>S\<close> and \<open>A < S\<close>, the request with
  \<open>Range: bytes=A-\<close> gets the very response (status, headers and body) of the request
  with \<open>Range: bytes=A-(S-1)\<close>, and that response has status 206.
\<close>

theorem open_range_equals_explicit:
  assumes fl: "fs (os_path_join (if is_token_valid vt (secretnumber request) now then SR else R)
                     (filename request)) = Some data"
    and AS: "A < length data"
  shows "video R SR fs vt (request\<lparr>range_header := Some (''bytes='' @ str_nat A @ ''-'')\<rparr>) now
         = video R SR fs vt
             (request\<lparr>range_header :=
                        Some (''bytes='' @ str_nat A @ ''-'' @ str_nat (length data - 1))\<rparr>) now
         \<and> (\<exists>r. video R SR fs vt (request\<lparr>range_header := Some (''bytes='' @ str_nat A @ ''-'')\<rparr>)
                   now = Inr r \<and> status r = 206)"
proof -
  let ?S = "int (length data)"
  let ?open = "request\<lparr>range_header := Some (''bytes='' @ str_nat A @ ''-'')\<rparr>"
  let ?closed = "request\<lparr>range_header :=
                           Some (''bytes='' @ str_nat A @ ''-'' @ str_nat (length data - 1))\<rparr>"
  have flo: "fs (os_path_join (if is_token_valid vt (secretnumber ?open) now then SR else R)
                   (filename ?open)) = Some data"
    using fl by simp
  have flc: "fs (os_path_join (if is_token_valid vt (secretnumber ?closed) now then SR else R)
                   (filename ?closed)) = Some data"
    using fl by simp
  have b1: "(if str_nat A \<noteq> [] then py_int (str_nat A) else Some 0) = Some (int A)"
    by (simp add: py_int_str_nat str_nat_chars(3))
  have b2o: "(if ([]::string) \<noteq> [] then py_int [] else Some (?S - 1)) = Some (?S - 1)"
    by simp
  have b2c: "(if str_nat (length data - 1) \<noteq> []
              then py_int (str_nat (length data - 1)) else Some (?S - 1)) = Some (?S - 1)"
    using AS by (simp add: py_int_str_nat str_nat_chars(3) of_nat_diff)
  have rho: "range_header ?open = Some (''bytes='' @ str_nat A @ ''-'')" by simp
  have rhc: "range_header ?closed
             = Some (''bytes='' @ str_nat A @ ''-'' @ str_nat (length data - 1))" by simp
  have ne: "''bytes='' @ str_nat A @ ''-'' \<noteq> []"
    "''bytes='' @ str_nat A @ ''-'' @ str_nat (length data - 1) \<noteq> []" by simp_all
  note o = video_range [where fs = fs and vt = vt and request = ?open and now = now
                          and SR = SR and R = R and data = data,
                        OF flo rho ne(1) split_open_range b1 b2o]
  note c = video_range [where fs = fs and vt = vt and request = ?closed and now = now
                          and SR = SR and R = R and data = data,
                        OF flc rhc ne(2) split_closed_range b1 b2c]
  have eo: "video R SR fs vt ?open now = video R SR fs vt ?closed now"
    by (simp only: o c) simp
  moreover have "\<exists>r. video R SR fs vt ?open now = Inr r \<and> status r = 206"
    by (simp only: o) simp
  ultimately show ?thesis by blast
qed


lemma video_full:
  assumes "fs (os_path_join (if is_token_valid vt (secretnumber request) now then SR else R)
                 (filename request)) = Some data"
    and "range_header request = None"
  shows "video R SR fs vt request now =
           Inr \<lparr>status = 200,
                mimetype = (case map_of mime_types (lower (splitext_ext (filename request))) of
                              None \<Rightarrow> ''video/mp4'' | Some t \<Rightarrow> t),
                headers = [(''Content-Length'', str_nat (length data)),
                           (''Accept-Ranges'', ''bytes'')],
                body = read_chunks CHUNK_SIZE data\<rparr>"
  using assms
  by (simp add: video_def Let_def response_class_def generate_full_def py_str_int)

lemma read_chunks_short:
  "data \<noteq> [] \<Longrightarrow> length data \<le> CHUNK_SIZE \<Longrightarrow> read_chunks CHUNK_SIZE data = [data]"
  by (subst read_chunks.simps, subst read_chunks.simps) (simp add: CHUNK_SIZE_def)

text \<open>
  Claim C9. \<open>video\<close> joins the requested name onto the catalog root and asks only
  whether the result is a file. So a name with a \<open>..\<close> segment whose joined path
  resolves outside the root is served like any other, whenever a file is there.
\<close>

theorem traversal_served:
  assumes "fs (os_path_join (if is_token_valid vt (secretnumber request) now then SR else R)
                 (filename request)) = Some data"
    and "''..'' \<in> set (path_segments (filename request))"
    and "\<not> inside (if is_token_valid vt (secretnumber request) now then SR else R)
               (os_path_join (if is_token_valid vt (secretnumber request) now then SR else R)
                  (filename request))"
    and "range_header request = None"
  shows "video R SR fs vt request now =
           Inr \<lparr>status = 200,
                mimetype = (case map_of mime_types (lower (splitext_ext (filename request))) of
                              None \<Rightarrow> ''video/mp4'' | Some t \<Rightarrow> t),
                headers = [(''Content-Length'', str_nat (length data)),
                           (''Accept-Ranges'', ''bytes'')],
                body = read_chunks CHUNK_SIZE data\<rparr>"
  using assms(1,4) by (rule video_full)

lemma resolve_examples:
  "resolve ''/srv/share'' = [''srv'', ''share'']"
  "resolve ''/srv/share/../private/key.mp4'' = [''srv'', ''private'', ''key.mp4'']"
  "path_segments ''../private/key.mp4'' = [''..'', ''private'', ''key.mp4'']"
  by (simp_all add: resolve_def path_segments_def)

lemma served_example_len: "str_nat (Suc (Suc (Suc (Suc 0)))) = ''4''"
  by code_simp

lemma served_example_chunks: "read_chunks CHUNK_SIZE ''DATA'' = [''DATA'']"
  by (rule read_chunks_short) (simp_all add: CHUNK_SIZE_def)

theorem traversal_served_witness:
  "files_fs [([''srv'', ''private'', ''key.mp4''], ''DATA'')]
       (os_path_join ''/srv/share'' ''../private/key.mp4'') = Some ''DATA''
   \<and> ''..'' \<in> set (path_segments ''../private/key.mp4'')
   \<and> \<not> inside ''/srv/share'' (os_path_join ''/srv/share'' ''../private/key.mp4'')
   \<and> video ''/srv/share'' ''/srv/secret''
        (files_fs [([''srv'', ''private'', ''key.mp4''], ''DATA'')]) []
        \<lparr>filename = ''../private/key.mp4'', secretnumber = [], range_header = None\<rparr> 0
      = Inr \<lparr>status = 200, mimetype = ''video/mp4'',
             headers = [(''Content-Length'', ''4''), (''Accept-Ranges'', ''bytes'')],
             body = [''DATA'']\<rparr>"
  using traversal_served
    [where fs = "files_fs [([''srv'', ''private'', ''key.mp4''], ''DATA'')]"
       and vt = "[]" and now = 0 and SR = "''/srv/secret''" and R = "''/srv/share''"
       and request = "\<lparr>filename = ''../private/key.mp4'', secretnumber = [],
                        range_header = None\<rparr>"
       and data = "''DATA''"]
  by (simp add: is_token_valid_def os_path_join_def startswith_def endswith_def files_fs_def
                inside_def resolve_examples served_example_len served_example_chunks
                mime_types_def splitext_ext_def lower_def lower_char_def)


theorem open_range_equals_explicit_witness:
  "video ''/srv/share'' ''/srv/secret''
     (Map.empty(''/srv/share/a.mp4'' \<mapsto> replicate 1000 (CHR ''x''))) []
     \<lparr>filename = ''a.mp4'', secretnumber = [], range_header = Some ''bytes=900-''\<rparr> 0
   = video ''/srv/share'' ''/srv/secret''
     (Map.empty(''/srv/share/a.mp4'' \<mapsto> replicate 1000 (CHR ''x''))) []
     \<lparr>filename = ''a.mp4'', secretnumber = [], range_header = Some ''bytes=900-999''\<rparr> 0
   \<and> (\<exists>r. video ''/srv/share'' ''/srv/secret''
             (Map.empty(''/srv/share/a.mp4'' \<mapsto> replicate 1000 (CHR ''x''))) []
             \<lparr>filename = ''a.mp4'', secretnumber = [], range_header = Some ''bytes=900-''\<rparr> 0
            = Inr r \<and> status r = 206)"
proof -
  let ?fs = "Map.empty(''/srv/share/a.mp4'' \<mapsto> replicate 1000 (CHR ''x''))"
  let ?rq = "\<lparr>filename = ''a.mp4'', secretnumber = [], range_header = None\<rparr>"
  have h1: "?fs (os_path_join (if is_token_valid [] (secretnumber ?rq) 0
                               then ''/srv/secret'' else ''/srv/share'') (filename ?rq))
            = Some (replicate 1000 (CHR ''x''))"
    by (simp add: is_token_valid_def os_path_join_def startswith_def endswith_def)
  have h2: "900 < length (replicate 1000 (CHR ''x''))" by simp
  note t = open_range_equals_explicit
    [where fs = ?fs and vt = "[]" and now = 0 and SR = "''/srv/secret''"
       and R = "''/srv/share''" and request = ?rq, OF h1 h2]
  have e1: "?rq\<lparr>range_header := Some (''bytes='' @ str_nat 900 @ ''-'')\<rparr>
            = \<lparr>filename = ''a.mp4'', secretnumber = [], range_header = Some ''bytes=900-''\<rparr>"
    by (simp add: str_nat_examples)
  have e2: "?rq\<lparr>range_header := Some (''bytes='' @ str_nat 900 @ ''-''
                     @ str_nat (length (replicate 1000 (CHR ''x'')) - 1))\<rparr>
            = \<lparr>filename = ''a.mp4'', secretnumber = [], range_header = Some ''bytes=900-999''\<rparr>"
    by (simp add: str_nat_examples)
  show ?thesis using t unfolding e1 e2 .
qed

section \<open>The registry at capacity\<close>

lemma str_nat_inj: "str_nat i = str_nat j \<Longrightarrow> i = j"
proof -
  assume "str_nat i = str_nat j"
  then have "digits_value (str_nat i) = digits_value (str_nat j)" by (rule arg_cong)
  then show "i = j" by (simp only: digits_value_str_nat)
qed

lemma full_registry_keys:
  "map fst full_registry = map (\<lambda>i. ''10.0.0.'' @ str_nat i) [0..<100]"
  by (simp add: full_registry_def comp_def)

lemma full_registry_distinct: "distinct (map fst full_registry)"
  unfolding full_registry_keys
  by (simp add: distinct_map inj_on_def str_nat_inj)

lemma full_registry_length: "length full_registry = MAX_CONNECTIONS"
  by (simp add: full_registry_def MAX_CONNECTIONS_def)

lemma full_registry_new: "\<not> dict_in ''10.0.1.1'' full_registry"
proof -
  have "fst ` set full_registry = set (map fst full_registry)" by simp
  also have "\<dots> = (\<lambda>i. ''10.0.0.'' @ str_nat i) ` {0..<100}"
    unfolding full_registry_keys by simp
  finally show ?thesis by (auto simp: dict_in_keys)
qed

theorem registry_never_exceeds_maximum_witness:
  "distinct (map fst full_registry) \<and> length full_registry \<le> MAX_CONNECTIONS
   \<and> (\<exists>c2 i2.
         track_all (full_registry, \<lparr>ip_to_interface_cache = [], interface_cache_last_update = 0\<rparr>)
           [\<lparr>path = ''/'', remote_addr = ''10.0.1.1'', remote_port = ''50000'',
             host = ''10.0.0.254:12345'',
             psutil_net_if_addrs = Some [(''eth0'', [(True, ''10.0.0.254'')])],
             t_interface = 1000, t_seen = 1000, now_string = ''2024-01-01 00:16:40''\<rparr>]
           = Some (c2, i2)
         \<and> length c2 = 91 \<and> dict_in ''10.0.1.1'' c2)"
proof -
  let ?ic = "\<lparr>ip_to_interface_cache = [], interface_cache_last_update = 0\<rparr>"
  let ?rq = "\<lparr>path = ''/'', remote_addr = ''10.0.1.1'', remote_port = ''50000'',
              host = ''10.0.0.254:12345'',
              psutil_net_if_addrs = Some [(''eth0'', [(True, ''10.0.0.254'')])],
              t_interface = 1000, t_seen = 1000, now_string = ''2024-01-01 00:16:40''\<rparr>"
  have le: "length full_registry \<le> MAX_CONNECTIONS" by (simp add: full_registry_length)
  from registry_never_exceeds_maximum [OF full_registry_distinct le, of ?ic "[]" ?rq]
  obtain c1 i1 c2 i2 where
    t1: "track_all (full_registry, ?ic) [] = Some (c1, i1)"
    and t2: "track_all (full_registry, ?ic) ([] @ [?rq]) = Some (c2, i2)"
    and reg: "path ?rq \<notin> set [''/monitor'', ''/monitor-data'']
              \<longrightarrow> dict_in (remote_addr ?rq) c2"
    and cap: "path ?rq \<notin> set [''/monitor'', ''/monitor-data'']
              \<and> \<not> dict_in (remote_addr ?rq) c1 \<and> length c1 = MAX_CONNECTIONS
              \<longrightarrow> length c2 = 91
                  \<and> (\<forall>e\<in>set c1. e \<notin> set c2 \<longrightarrow>
                        (\<forall>p\<in>set c1 \<inter> set c2. last_seen (snd e) \<le> last_seen (snd p)))"
    by blast
  have c1: "c1 = full_registry" using t1 by simp
  have "length c2 = 91" using cap c1 full_registry_new full_registry_length by simp
  moreover have "dict_in ''10.0.1.1'' c2" using reg by simp
  moreover have "track_all (full_registry, ?ic) [?rq] = Some (c2, i2)" using t2 by simp
  ultimately show ?thesis using full_registry_distinct le by blast
qed

end
